theory Spec2Isabelle
  imports Complex_Main "HOL-Library.Word" "HOL-Library.Multiset"
begin

section \<open>Percentile autocontrast on 8-bit pixel maps\<close>

text \<open>
  The repository holds two programs, \<^verbatim>\<open>autocontrast.cpp\<close> (P5 and P6 images, with a
  command line) and the older \<^verbatim>\<open>image.cpp\<close> (P6 only). Both have one function
  \<^verbatim>\<open>handle_image\<close> that reads an image, counts sample frequencies in parallel blocks,
  searches the two borders \<^verbatim>\<open>source_min\<close> and \<^verbatim>\<open>source_max\<close>, builds the 256-entry
  table \<^verbatim>\<open>mapping\<close> and overwrites every sample by its table entry.

  The embedding follows \<^verbatim>\<open>handle_image\<close> stage by stage. Definitions without a suffix are
  those of \<^verbatim>\<open>autocontrast.cpp\<close>; the ones ending in \<open>_image\<close> are the corresponding stages
  of \<^verbatim>\<open>image.cpp\<close> where that file differs.
\<close>

subsection \<open>Data\<close>

text \<open>
  A sample is a \<^verbatim>\<open>uint8_t\<close>. The frequency counters are \<^verbatim>\<open>size_t\<close>; a counter never
  exceeds the number of samples, which the program holds in an \<^verbatim>\<open>int\<close>, so the counters
  cannot wrap and are natural numbers here. \<^verbatim>\<open>source_min\<close>, \<^verbatim>\<open>source_max\<close> and the loop
  indices are \<^verbatim>\<open>int\<close>s that stay between \<open>-1\<close> and \<open>256\<close>.

  What C++ leaves undefined is an error value of the model: an array read outside its
  bounds, and the conversion of a floating-point value to an integer type that cannot
  represent it.
\<close>

type_synonym sample = "8 word"

datatype error = OutOfBounds | UndefinedConversion

subsection \<open>Single-precision arithmetic\<close>

text \<open>
  \<^verbatim>\<open>float\<close> is IEEE 754 binary32 with the default rounding (to nearest, ties to even),
  and every operation is rounded to single precision. A value is a rational number, an
  infinity or a NaN; the two zeros are not told apart (every zero divisor of the program
  is the conversion of an \<^verbatim>\<open>int\<close>, hence \<open>+0\<close>). A division by zero gives what
  IEEE 754 gives: an infinity, or a NaN for \<open>0/0\<close>.
\<close>

datatype f32 = Finite rat | PosInf | NegInf | NaN

text \<open>The exponent of the binade of a positive rational: \<open>2 powi e \<le> x < 2 powi (e + 1)\<close>.\<close>

function floor_log2 :: "rat \<Rightarrow> int" where
  "floor_log2 x =
     (if x \<le> 0 then 0
      else if 2 \<le> x then floor_log2 (x / 2) + 1
      else if x < 1 then floor_log2 (x * 2) - 1
      else 0)"
  by pat_completeness auto
termination
proof (relation "measure (\<lambda>x. nat (2 * \<lceil>1 / x\<rceil> + \<lfloor>x\<rfloor>))")
  show "wf (measure (\<lambda>x::rat. nat (2 * \<lceil>1 / x\<rceil> + \<lfloor>x\<rfloor>)))" by simp
next
  fix x :: rat
  assume a: "\<not> x \<le> 0" "2 \<le> x"
  have 1: "\<lceil>1 / (x / 2)\<rceil> = 1" using a by (simp add: ceiling_eq_iff)
  have 2: "\<lceil>1 / x\<rceil> = 1" using a by (simp add: ceiling_eq_iff)
  have 3: "\<lfloor>x / 2\<rfloor> < \<lfloor>x\<rfloor>" using a by linarith
  have 4: "2 \<le> \<lfloor>x\<rfloor>" using a by (simp add: le_floor_iff)
  have "nat (2 * \<lceil>1 / (x / 2)\<rceil> + \<lfloor>x / 2\<rfloor>) < nat (2 * \<lceil>1 / x\<rceil> + \<lfloor>x\<rfloor>)"
    unfolding 1 2 using 3 4 by linarith
  then show "(x / 2, x) \<in> measure (\<lambda>x. nat (2 * \<lceil>1 / x\<rceil> + \<lfloor>x\<rfloor>))"
    by simp
next
  fix x :: rat
  assume a: "\<not> x \<le> 0" "\<not> 2 \<le> x" "x < 1"
  have y: "1 < 1 / x" using a by simp
  then have n: "2 \<le> \<lceil>1 / x\<rceil>" by linarith
  have c: "1 / x \<le> of_int \<lceil>1 / x\<rceil>" by (rule le_of_int_ceiling)
  have n': "(2::rat) \<le> of_int \<lceil>1 / x\<rceil>" using n by linarith
  have h: "1 / (x * 2) = (1 / x) / 2" by simp
  have "y / 2 \<le> k - 1" if "y \<le> k" "2 \<le> k" for y k :: rat
    using that by (simp add: field_simps)
  from this[OF c n'] have "(1 / x) / 2 \<le> of_int \<lceil>1 / x\<rceil> - 1" .
  then have "1 / (x * 2) \<le> of_int (\<lceil>1 / x\<rceil> - 1)" unfolding h by simp
  then have 1: "\<lceil>1 / (x * 2)\<rceil> \<le> \<lceil>1 / x\<rceil> - 1" by (subst ceiling_le_iff)
  have 2: "\<lfloor>x * 2\<rfloor> \<le> 1" using a by (simp add: floor_le_iff)
  have 3: "\<lfloor>x\<rfloor> = 0" using a by (simp add: floor_eq_iff)
  have "nat (2 * \<lceil>1 / (x * 2)\<rceil> + \<lfloor>x * 2\<rfloor>) < nat (2 * \<lceil>1 / x\<rceil> + \<lfloor>x\<rfloor>)"
    unfolding 3 using 1 2 n by linarith
  then show "(x * 2, x) \<in> measure (\<lambda>x. nat (2 * \<lceil>1 / x\<rceil> + \<lfloor>x\<rfloor>))"
    by simp
qed

declare floor_log2.simps [simp del]

definition round_half_even :: "rat \<Rightarrow> int" where
  "round_half_even x =
     (let f = \<lfloor>x\<rfloor>; r = x - of_int f
      in if r < 1 / 2 then f
         else if 1 / 2 < r then f + 1
         else if even f then f else f + 1)"

text \<open>
  The exponent of the unit in the last place uses the binade of \<open>\<bar>x\<bar>\<close>, held at \<open>-126\<close>
  for subnormal numbers; the significand has 24 bits.
\<close>

definition binade :: "rat \<Rightarrow> int" where
  "binade x = max (floor_log2 \<bar>x\<bar>) (- 126)"

definition round_binary32 :: "rat \<Rightarrow> rat" where
  "round_binary32 x =
     (if x = 0 then 0
      else let q = 2 powi (binade x - 23)
           in sgn x * (of_int (round_half_even (\<bar>x\<bar> / q)) * q))"

definition to_f32 :: "rat \<Rightarrow> f32" where
  "to_f32 x =
     (let y = round_binary32 x
      in if 2 powi 128 \<le> y then PosInf
         else if y \<le> - (2 powi 128) then NegInf
         else Finite y)"

definition f32_of_int :: "int \<Rightarrow> f32" where
  "f32_of_int n = to_f32 (of_int n)"

definition f32_of_size :: "nat \<Rightarrow> f32" where
  "f32_of_size n = to_f32 (of_nat n)"

fun f32_mul :: "f32 \<Rightarrow> f32 \<Rightarrow> f32" where
  "f32_mul (Finite a) (Finite b) = to_f32 (a * b)"
| "f32_mul (Finite a) PosInf = (if a = 0 then NaN else if 0 < a then PosInf else NegInf)"
| "f32_mul (Finite a) NegInf = (if a = 0 then NaN else if 0 < a then NegInf else PosInf)"
| "f32_mul PosInf (Finite b) = (if b = 0 then NaN else if 0 < b then PosInf else NegInf)"
| "f32_mul NegInf (Finite b) = (if b = 0 then NaN else if 0 < b then NegInf else PosInf)"
| "f32_mul PosInf PosInf = PosInf"
| "f32_mul PosInf NegInf = NegInf"
| "f32_mul NegInf PosInf = NegInf"
| "f32_mul NegInf NegInf = PosInf"
| "f32_mul _ _ = NaN"

fun f32_div :: "f32 \<Rightarrow> f32 \<Rightarrow> f32" where
  "f32_div (Finite a) (Finite b) =
     (if b = 0 then (if a = 0 then NaN else if 0 < a then PosInf else NegInf)
      else to_f32 (a / b))"
| "f32_div (Finite a) PosInf = Finite 0"
| "f32_div (Finite a) NegInf = Finite 0"
| "f32_div PosInf (Finite b) = (if 0 \<le> b then PosInf else NegInf)"
| "f32_div NegInf (Finite b) = (if 0 \<le> b then NegInf else PosInf)"
| "f32_div _ _ = NaN"

fun f32_sub :: "f32 \<Rightarrow> f32 \<Rightarrow> f32" where
  "f32_sub (Finite a) (Finite b) = to_f32 (a - b)"
| "f32_sub (Finite a) PosInf = NegInf"
| "f32_sub (Finite a) NegInf = PosInf"
| "f32_sub PosInf (Finite b) = PosInf"
| "f32_sub NegInf (Finite b) = NegInf"
| "f32_sub PosInf NegInf = PosInf"
| "f32_sub NegInf PosInf = NegInf"
| "f32_sub _ _ = NaN"

text \<open>The comparison \<^verbatim>\<open>a > b\<close>: false as soon as one side is a NaN.\<close>

fun f32_gt :: "f32 \<Rightarrow> f32 \<Rightarrow> bool" where
  "f32_gt (Finite a) (Finite b) = (b < a)"
| "f32_gt (Finite a) NegInf = True"
| "f32_gt PosInf (Finite b) = True"
| "f32_gt PosInf NegInf = True"
| "f32_gt _ _ = False"

text \<open>
  \<^verbatim>\<open>std::max(a, b)\<close> is \<^verbatim>\<open>(a < b) ? b : a\<close> and \<^verbatim>\<open>std::min(a, b)\<close> is
  \<^verbatim>\<open>(b < a) ? b : a\<close>: with a NaN second argument both return the first.
\<close>

definition f32_max :: "f32 \<Rightarrow> f32 \<Rightarrow> f32" where
  "f32_max a b = (if f32_gt b a then b else a)"

definition f32_min :: "f32 \<Rightarrow> f32 \<Rightarrow> f32" where
  "f32_min a b = (if f32_gt a b then b else a)"

text \<open>
  \<^verbatim>\<open>round\<close> goes to the nearest integer, halves away from zero; the result of rounding a
  binary32 value is again a binary32 value.
\<close>

definition round_away :: "rat \<Rightarrow> int" where
  "round_away x = (if 0 \<le> x then \<lfloor>x + 1 / 2\<rfloor> else \<lceil>x - 1 / 2\<rceil>)"

fun f32_round :: "f32 \<Rightarrow> f32" where
  "f32_round (Finite x) = Finite (of_int (round_away x))"
| "f32_round v = v"

definition trunc_rat :: "rat \<Rightarrow> int" where
  "trunc_rat x = (if 0 \<le> x then \<lfloor>x\<rfloor> else \<lceil>x\<rceil>)"

text \<open>
  A conversion to an integer type truncates; it is undefined when the truncated value is
  not a value of the target type, and for infinities and NaNs.
\<close>

fun f32_to_int :: "f32 \<Rightarrow> error + int" where
  "f32_to_int (Finite x) =
     (if - (2 ^ 31) \<le> trunc_rat x \<and> trunc_rat x < 2 ^ 31 then Inr (trunc_rat x)
      else Inl UndefinedConversion)"
| "f32_to_int _ = Inl UndefinedConversion"

fun f32_to_u8 :: "f32 \<Rightarrow> error + sample" where
  "f32_to_u8 (Finite x) =
     (if 0 \<le> trunc_rat x \<and> trunc_rat x < 256 then Inr (word_of_int (trunc_rat x))
      else Inl UndefinedConversion)"
| "f32_to_u8 _ = Inl UndefinedConversion"

subsection \<open>Frequencies\<close>

text \<open>
  \<^verbatim>\<open>++tmp_freq[image[pixel_index]]\<close> for \<^verbatim>\<open>pixel_index\<close> from \<^verbatim>\<open>start\<close> up to
  \<^verbatim>\<open>end\<close>. The index into the 256 counters is a \<^verbatim>\<open>uint8_t\<close>.
\<close>

definition bump :: "nat list \<Rightarrow> sample \<Rightarrow> nat list" where
  "bump freq v = freq[unat v := freq ! unat v + 1]"

definition count_block :: "sample list \<Rightarrow> nat \<Rightarrow> nat \<Rightarrow> nat list \<Rightarrow> nat list" where
  "count_block img start end freq =
     fold (\<lambda>pixel_index f. bump f (img ! pixel_index)) [start..<end] freq"

text \<open>The private table of thread \<open>cur_thread_num\<close>, counted from an all-zero table.\<close>

definition thread_freq :: "sample list \<Rightarrow> nat \<Rightarrow> nat \<Rightarrow> nat list" where
  "thread_freq img thread_block_size cur_thread_num =
     count_block img (thread_block_size * cur_thread_num)
       (thread_block_size * (cur_thread_num + 1)) (replicate 256 0)"

text \<open>The critical section: \<^verbatim>\<open>freq[i] += tmp_freq[i]\<close> for the 256 bins.\<close>

definition merge_freq :: "nat list \<Rightarrow> nat list \<Rightarrow> nat list" where
  "merge_freq freq tmp_freq = map (\<lambda>i. freq ! i + tmp_freq ! i) [0..<256]"

text \<open>
  \<open>THREADS_COUNT\<close> is \<^verbatim>\<open>omp_get_max_threads()\<close>, at least 1, and the size of the blocks
  comes from it. The threads of the parallel region are numbered from \<open>0\<close>. Counting
  touches only the thread's own table; the threads pass the critical section one at a
  time, in an order the scheduler chooses, given here as the list \<open>order\<close> of the
  numbers of the threads that run. A full team is a permutation of the numbers below
  \<open>THREADS_COUNT\<close>; the program does not ask how many threads the region got, and a
  smaller team is a permutation of the numbers below its own size.
  The tail left over by the integer division is counted afterwards by one thread.
  \<open>colorwise_size\<close> is the length of the buffer.
\<close>

definition frequencies :: "nat \<Rightarrow> nat list \<Rightarrow> sample list \<Rightarrow> nat list" where
  "frequencies THREADS_COUNT order img =
     (let colorwise_size = length img;
          thread_block_size = colorwise_size div THREADS_COUNT;
          freq = fold (\<lambda>cur_thread_num freq.
                        merge_freq freq (thread_freq img thread_block_size cur_thread_num))
                   order (replicate 256 0)
      in count_block img (thread_block_size * THREADS_COUNT) colorwise_size freq)"

text \<open>
  \<^verbatim>\<open>image.cpp\<close>: the same blocks over \<^verbatim>\<open>raw_image\<close>, but the tail loop increments the
  counter of each tail sample once for each of the three colours.
\<close>

definition count_tail_image :: "sample list \<Rightarrow> nat \<Rightarrow> nat \<Rightarrow> nat list \<Rightarrow> nat list" where
  "count_tail_image raw_img start end freq =
     fold (\<lambda>pixel_index f. fold (\<lambda>color f. bump f (raw_img ! pixel_index)) [0..<3] f)
       [start..<end] freq"

definition frequencies_image :: "nat \<Rightarrow> nat list \<Rightarrow> sample list \<Rightarrow> nat list" where
  "frequencies_image THREADS_COUNT order raw_img =
     (let thread_block_size = length raw_img div THREADS_COUNT;
          freq = fold (\<lambda>cur_thread_num freq.
                        merge_freq freq (thread_freq raw_img thread_block_size cur_thread_num))
                   order (replicate 256 0)
      in count_tail_image raw_img (thread_block_size * THREADS_COUNT) (length raw_img) freq)"

subsection \<open>Borders\<close>

text \<open>
  The upward loop
  \<^verbatim>\<open>for (pref_summ = 0, source_min = 0; source_min < limit; ++source_min)\<close>
  adds \<^verbatim>\<open>freq[source_min]\<close> to the running sum and leaves with \<^verbatim>\<open>break\<close> when
  \<^verbatim>\<open>(float) pref_summ > needed_borders\<close>. The limit is 255 in \<^verbatim>\<open>autocontrast.cpp\<close> and
  256 in \<^verbatim>\<open>image.cpp\<close>. The value of \<^verbatim>\<open>source_min\<close> after the loop is the result.
\<close>

function scan_up :: "int \<Rightarrow> f32 \<Rightarrow> nat list \<Rightarrow> nat \<Rightarrow> int \<Rightarrow> error + int" where
  "scan_up limit needed_borders freq pref_summ source_min =
     (if source_min < limit then
        (if 0 \<le> source_min \<and> source_min < int (length freq) then
           (let pref_summ' = pref_summ + freq ! nat source_min
            in if f32_gt (f32_of_size pref_summ') needed_borders then Inr source_min
               else scan_up limit needed_borders freq pref_summ' (source_min + 1))
         else Inl OutOfBounds)
      else Inr source_min)"
  by pat_completeness auto
termination
  by (relation "measure (\<lambda>(limit, needed_borders, freq, pref_summ, source_min).
        nat (limit - source_min))") auto

text \<open>
  The downward loop
  \<^verbatim>\<open>for (pref_summ = 0, source_max = 255; source_max > limit; --source_max)\<close>,
  with limit 0 in \<^verbatim>\<open>autocontrast.cpp\<close>; \<^verbatim>\<open>image.cpp\<close> tests \<^verbatim>\<open>source_max >= 0\<close>, which
  is the limit \<open>-1\<close>.
\<close>

function scan_down :: "int \<Rightarrow> f32 \<Rightarrow> nat list \<Rightarrow> nat \<Rightarrow> int \<Rightarrow> error + int" where
  "scan_down limit needed_borders freq pref_summ source_max =
     (if limit < source_max then
        (if 0 \<le> source_max \<and> source_max < int (length freq) then
           (let pref_summ' = pref_summ + freq ! nat source_max
            in if f32_gt (f32_of_size pref_summ') needed_borders then Inr source_max
               else scan_down limit needed_borders freq pref_summ' (source_max - 1))
         else Inl OutOfBounds)
      else Inr source_max)"
  by pat_completeness auto
termination
  by (relation "measure (\<lambda>(limit, needed_borders, freq, pref_summ, source_max).
        nat (source_max - limit))") auto

declare scan_up.simps [simp del] scan_down.simps [simp del]

definition source_min_scan :: "f32 \<Rightarrow> nat list \<Rightarrow> error + int" where
  "source_min_scan needed_borders freq = scan_up 255 needed_borders freq 0 0"

definition source_max_scan :: "f32 \<Rightarrow> nat list \<Rightarrow> error + int" where
  "source_max_scan needed_borders freq = scan_down 0 needed_borders freq 0 255"

definition source_min_scan_image :: "f32 \<Rightarrow> nat list \<Rightarrow> error + int" where
  "source_min_scan_image needed_borders freq = scan_up 256 needed_borders freq 0 0"

definition source_max_scan_image :: "f32 \<Rightarrow> nat list \<Rightarrow> error + int" where
  "source_max_scan_image needed_borders freq = scan_down (- 1) needed_borders freq 0 255"

text \<open>\<^verbatim>\<open>float needed_borders = coeff * size\<close>, with the 32-bit \<^verbatim>\<open>int size\<close> of the header.\<close>

definition needed :: "f32 \<Rightarrow> 32 word \<Rightarrow> f32" where
  "needed coeff sz = f32_mul coeff (f32_of_int (sint sz))"

subsection \<open>Mapping\<close>

text \<open>
  \<^verbatim>\<open>autocontrast.cpp\<close>:
  \<^verbatim>\<open>float tmp = (float) 255.0 / (source_max - source_min);\<close> and, for \<open>i\<close> from 0 to 255,
  \<^verbatim>\<open>mapping[i] = (uint8_t) min(255, (int) round(tmp * max(0, i - source_min)));\<close>
  The division is not guarded.
\<close>

definition mapping_entry :: "f32 \<Rightarrow> int \<Rightarrow> int \<Rightarrow> error + sample" where
  "mapping_entry tmp source_min i =
     (case f32_to_int (f32_round (f32_mul tmp (f32_of_int (max 0 (i - source_min))))) of
        Inl e \<Rightarrow> Inl e
      | Inr v \<Rightarrow> Inr (word_of_int (min 255 v)))"

fun fill_mapping :: "(int \<Rightarrow> error + sample) \<Rightarrow> nat list \<Rightarrow> sample list \<Rightarrow> error + sample list" where
  "fill_mapping entry [] mapping = Inr mapping"
| "fill_mapping entry (i # is) mapping =
     (case entry (int i) of
        Inl e \<Rightarrow> Inl e
      | Inr v \<Rightarrow> fill_mapping entry is (mapping[i := v]))"

definition build_mapping :: "int \<Rightarrow> int \<Rightarrow> error + sample list" where
  "build_mapping source_min source_max =
     (let tmp = f32_div (Finite 255) (f32_of_int (source_max - source_min))
      in fill_mapping (mapping_entry tmp source_min) [0..<256] (replicate 256 0))"

text \<open>
  \<^verbatim>\<open>image.cpp\<close>:
  \<^verbatim>\<open>float tmp = (float) 255.0 / (source_max - source_min), s_min = source_min;\<close> and
  \<^verbatim>\<open>mapping[i] = min((float) 255.0, max((float) 0.0, i - s_min) * tmp);\<close>
  The result is converted to \<^verbatim>\<open>uint8_t\<close> by truncation, without rounding.
\<close>

definition mapping_entry_image :: "f32 \<Rightarrow> f32 \<Rightarrow> int \<Rightarrow> error + sample" where
  "mapping_entry_image tmp s_min i =
     f32_to_u8 (f32_min (Finite 255)
       (f32_mul (f32_max (Finite 0) (f32_sub (f32_of_int i) s_min)) tmp))"

definition build_mapping_image :: "int \<Rightarrow> int \<Rightarrow> error + sample list" where
  "build_mapping_image source_min source_max =
     (let tmp = f32_div (Finite 255) (f32_of_int (source_max - source_min));
          s_min = f32_of_int source_min
      in fill_mapping (mapping_entry_image tmp s_min) [0..<256] (replicate 256 0))"

subsection \<open>Applying the table\<close>

text \<open>
  \<^verbatim>\<open>image[pixel_index] = mapping[image[pixel_index]]\<close> under \<^verbatim>\<open>#pragma omp parallel for\<close>:
  every index is one iteration, and the iterations run in an order the scheduler
  chooses. \<open>apply_in_order\<close> runs them in a given order, \<open>apply_mapping\<close> from index 0
  up to \<open>colorwise_size\<close>.
\<close>

definition apply_in_order :: "sample list \<Rightarrow> nat list \<Rightarrow> sample list \<Rightarrow> sample list" where
  "apply_in_order mapping order img =
     fold (\<lambda>pixel_index img. img[pixel_index := mapping ! unat (img ! pixel_index)]) order img"

definition apply_mapping :: "sample list \<Rightarrow> sample list \<Rightarrow> sample list" where
  "apply_mapping mapping img = apply_in_order mapping [0..<length img] img"

text \<open>
  \<^verbatim>\<open>image.cpp\<close> holds \<open>3 * size\<close> samples in \<^verbatim>\<open>raw_image\<close>, and its loop runs over
  \<^verbatim>\<open>pixel_index < size\<close>.
\<close>

definition apply_mapping_image :: "sample list \<Rightarrow> nat \<Rightarrow> sample list \<Rightarrow> sample list" where
  "apply_mapping_image mapping sz raw_img = apply_in_order mapping [0..<sz] raw_img"

subsection \<open>The processing part of \<^verbatim>\<open>handle_image\<close>\<close>

text \<open>
  From the buffer read from the file to the buffer written back
  (\<^verbatim>\<open>autocontrast.cpp\<close>, between the comments \<^verbatim>\<open>PROCESSING\<close> and \<^verbatim>\<open>OUTPUT\<close>).
\<close>

definition process :: "nat \<Rightarrow> nat list \<Rightarrow> f32 \<Rightarrow> 32 word \<Rightarrow> sample list \<Rightarrow> error + sample list" where
  "process THREADS_COUNT order coeff sz img =
     (let freq = frequencies THREADS_COUNT order img;
          needed_borders = needed coeff sz
      in case source_min_scan needed_borders freq of
           Inl e \<Rightarrow> Inl e
         | Inr source_min \<Rightarrow>
             (case source_max_scan needed_borders freq of
                Inl e \<Rightarrow> Inl e
              | Inr source_max \<Rightarrow>
                  (case build_mapping source_min source_max of
                     Inl e \<Rightarrow> Inl e
                   | Inr mapping \<Rightarrow> Inr (apply_mapping mapping img))))"

subsection \<open>The command line\<close>

text \<open>
  What \<^verbatim>\<open>main\<close> of \<^verbatim>\<open>autocontrast.cpp\<close> prints and returns. The library and the file
  system are parameters: the stream extractions \<^verbatim>\<open>ss >> threads_count\<close> and
  \<^verbatim>\<open>ss >> coeff\<close> (failure, or the value read and whether the stream is at its end),
  \<^verbatim>\<open>fopen\<close> on the input path, the result of \<^verbatim>\<open>fscanf\<close> on the header (the five items,
  or fewer than five), \<^verbatim>\<open>malloc\<close>, the thread count
  \<^verbatim>\<open>omp_get_max_threads()\<close> returns at the start, and the one it returns after
  \<^verbatim>\<open>omp_set_num_threads(threads_count)\<close> (the program is built with OpenMP; what a
  count of 0 or less does is left to the OpenMP implementation).
  The processing itself is \<open>process\<close> above; here a successful run only stands for its
  line \<^verbatim>\<open>Time (... thread(s)): ... ms\<close>.
\<close>

datatype 'a extraction = Failed | Extracted 'a bool

datatype message =
    TooFewArguments
  | InvalidNumber string
  | TrailingCharacters string
  | NoArguments
  | ErrorReadingInputFile
  | NotRecognized
  | MagicNotFound
  | CannotAllocate
  | TimeReport int

type_synonym header = "char \<times> char \<times> int \<times> int \<times> int"

record world =
  extract_int :: "string \<Rightarrow> int extraction"
  extract_float :: "string \<Rightarrow> f32 extraction"
  fopen_header :: "string \<Rightarrow> header option option"
  malloc_ok :: "int \<Rightarrow> bool"
  max_threads :: int
  set_num_threads :: "int \<Rightarrow> int"

definition handle_image :: "world \<Rightarrow> int \<Rightarrow> string \<Rightarrow> string \<Rightarrow> f32 \<Rightarrow> message list" where
  "handle_image w THREADS_COUNT input_path output_path coeff =
     (case fopen_header w input_path of
        None \<Rightarrow> [ErrorReadingInputFile]
      | Some None \<Rightarrow> [NotRecognized]
      | Some (Some (first_indentifier, second_indentifier, width, height, color_space)) \<Rightarrow>
          if first_indentifier \<noteq> CHR ''P''
             \<or> (second_indentifier \<noteq> CHR ''5'' \<and> second_indentifier \<noteq> CHR ''6'')
          then [MagicNotFound]
          else
            let colored = (second_indentifier = CHR ''6'');
                sz = width * height;
                colorwise_size = (if colored then 3 * sz else sz)
            in if \<not> malloc_ok w colorwise_size then [CannotAllocate]
               else [TimeReport THREADS_COUNT])"

text \<open>
  The run without arguments: input path, output path and coefficient of each call
  (\<^verbatim>\<open>0.01\<close> for the first two, 0 for the others; \<^verbatim>\<open>picTest8\<close> is skipped).
\<close>

definition debug_runs :: "(string \<times> string \<times> f32) list" where
  "debug_runs =
     [(''images/low_contrast.small.pnm'', ''result/low_contrast.small.pnm'', to_f32 (1 / 100)),
      (''images/low_contrast.large.pnm'', ''result/low_contrast.large.pnm'', to_f32 (1 / 100)),
      (''images/rgb.pnm'', ''result/rgb.pnm'', Finite 0),
      (''images/picTest0.pnm'', ''result/picTest0.pnm'', Finite 0),
      (''images/picTest1.pnm'', ''result/picTest1.pnm'', Finite 0),
      (''images/picTest2.pnm'', ''result/picTest2.pnm'', Finite 0),
      (''images/picTest3.pnm'', ''result/picTest3.pnm'', Finite 0),
      (''images/picTest4.pnm'', ''result/picTest4.pnm'', Finite 0),
      (''images/picTest5.pnm'', ''result/picTest5.pnm'', Finite 0),
      (''images/picTest6.pnm'', ''result/picTest6.pnm'', Finite 0),
      (''images/picTest7.pnm'', ''result/picTest7.pnm'', Finite 0),
      (''images/picTest9.pnm'', ''result/picTest9.pnm'', Finite 0),
      (''images/picTest10.pnm'', ''result/picTest10.pnm'', Finite 0),
      (''images/picTest11.pnm'', ''result/picTest11.pnm'', Finite 0),
      (''images/picTest12.pnm'', ''result/picTest12.pnm'', Finite 0)]"

text \<open>
  \<open>argv\<close> is the whole argument vector, the program name first, so \<open>argc = length argv\<close>.
  The result is what is printed and the exit status; \<^verbatim>\<open>main\<close> has no \<^verbatim>\<open>return\<close> after
  its calls of \<^verbatim>\<open>handle_image\<close>, which is the status 0.
\<close>

definition main :: "world \<Rightarrow> string list \<Rightarrow> message list \<times> int" where
  "main w argv =
     (if 1 < length argv then
        if length argv < 5 then ([TooFewArguments], 1)
        else
          case extract_int w (argv ! 1) of
            Failed \<Rightarrow> ([InvalidNumber (argv ! 1)], 1)
          | Extracted threads_count at_eof \<Rightarrow>
              if \<not> at_eof then ([TrailingCharacters (argv ! 1)], 1)
              else
                case extract_float w (argv ! 4) of
                  Failed \<Rightarrow> ([InvalidNumber (argv ! 4)], 1)
                | Extracted coeff at_eof \<Rightarrow>
                    if \<not> at_eof then ([TrailingCharacters (argv ! 4)], 1)
                    else (handle_image w (set_num_threads w threads_count)
                            (argv ! 2) (argv ! 3) coeff, 0)
      else
        (NoArguments #
           concat (map (\<lambda>(input_path, output_path, coeff).
                          handle_image w (max_threads w) input_path output_path coeff)
                     debug_runs), 0))"

text \<open>
  A concrete environment for the examples: the numbers \<^verbatim>\<open>4\<close> and \<^verbatim>\<open>0.5\<close> parse, with or
  without a trailing \<^verbatim>\<open>x\<close>; \<^verbatim>\<open>in.pnm\<close> is a 2x2 P5 image, \<^verbatim>\<open>p4.pnm\<close> starts with
  \<^verbatim>\<open>P4\<close>, \<^verbatim>\<open>junk.pnm\<close> has no header, and no other file can be opened; a thread
  count of 0 or less is replaced by 1.
\<close>

definition example_world :: world where
  "example_world =
     \<lparr>extract_int = (\<lambda>s. if s = ''4'' then Extracted 4 True
                          else if s = ''4x'' then Extracted 4 False else Failed),
      extract_float = (\<lambda>s. if s = ''0.5'' then Extracted (Finite (1 / 2)) True
                            else if s = ''0.5x'' then Extracted (Finite (1 / 2)) False
                            else Failed),
      fopen_header = (\<lambda>p. if p = ''in.pnm'' then Some (Some (CHR ''P'', CHR ''5'', 2, 2, 255))
                           else if p = ''p4.pnm'' then Some (Some (CHR ''P'', CHR ''4'', 2, 2, 255))
                           else if p = ''junk.pnm'' then Some None
                           else None),
      malloc_ok = (\<lambda>n. True),
      max_threads = 8,
      set_num_threads = (\<lambda>n. if 0 < n then n else 1)\<rparr>"

section \<open>Properties of the rounding\<close>

lemma floor_log2_bounds:
  "0 < x \<Longrightarrow> 2 powi (floor_log2 x) \<le> x \<and> x < 2 powi (floor_log2 x + 1)"
proof (induction x rule: floor_log2.induct)
  case (1 x)
  show ?case
  proof (cases "2 \<le> x")
    case True
    then have h: "2 powi (floor_log2 (x / 2)) \<le> x / 2 \<and> x / 2 < 2 powi (floor_log2 (x / 2) + 1)"
      using 1 by simp
    have e: "floor_log2 x = floor_log2 (x / 2) + 1"
      using True 1(3) by (subst floor_log2.simps) simp
    show ?thesis using h unfolding e
      by (simp add: power_int_add)
  next
    case False
    show ?thesis
    proof (cases "x < 1")
      case True
      then have h: "2 powi (floor_log2 (x * 2)) \<le> x * 2 \<and> x * 2 < 2 powi (floor_log2 (x * 2) + 1)"
        using 1 False by simp
      have e: "floor_log2 x = floor_log2 (x * 2) - 1"
        using True False 1(3) by (subst floor_log2.simps) simp
      show ?thesis using h unfolding e
        by (simp add: power_int_add power_int_diff)
    next
      case f: False
      have e: "floor_log2 x = 0"
        using f False 1(3) by (subst floor_log2.simps) simp
      show ?thesis using f False unfolding e by simp
    qed
  qed
qed

lemma powi2_less_imp: "(2::rat) powi a < 2 powi b \<Longrightarrow> a < b"
  using power_int_increasing[of b a "2::rat"] by (cases "a < b") simp_all

lemma floor_log2_unique:
  assumes "0 < x" "2 powi e \<le> x" "x < 2 powi (e + 1)"
  shows "floor_log2 x = e"
proof -
  from floor_log2_bounds[OF assms(1)]
  have b: "2 powi (floor_log2 x) \<le> x" "x < 2 powi (floor_log2 x + 1)" by simp_all
  have "(2::rat) powi e < 2 powi (floor_log2 x + 1)" using assms(2) b(2) by linarith
  then have 1: "e < floor_log2 x + 1" by (rule powi2_less_imp)
  have "(2::rat) powi (floor_log2 x) < 2 powi (e + 1)" using assms(3) b(1) by linarith
  then have 2: "floor_log2 x < e + 1" by (rule powi2_less_imp)
  show ?thesis using 1 2 by simp
qed

lemma floor_log2_mono:
  assumes "0 < x" "x \<le> y"
  shows "floor_log2 x \<le> floor_log2 y"
proof -
  have y: "0 < y" using assms by simp
  have "(2::rat) powi (floor_log2 x) < 2 powi (floor_log2 y + 1)"
    using floor_log2_bounds[OF assms(1)] floor_log2_bounds[OF y] assms(2) by linarith
  then have "floor_log2 x < floor_log2 y + 1" by (rule powi2_less_imp)
  then show ?thesis by simp
qed

lemma rhe_floor_bounds: "\<lfloor>x\<rfloor> \<le> round_half_even x \<and> round_half_even x \<le> \<lfloor>x\<rfloor> + 1"
  by (simp add: round_half_even_def Let_def)

lemma rhe_of_int: "round_half_even (of_int n) = n"
  by (simp add: round_half_even_def)

lemma rhe_mono:
  assumes "x \<le> y"
  shows "round_half_even x \<le> round_half_even y"
proof (cases "\<lfloor>x\<rfloor> = \<lfloor>y\<rfloor>")
  case True
  have "x - of_int \<lfloor>x\<rfloor> \<le> y - of_int \<lfloor>y\<rfloor>" using assms True by simp
  then show ?thesis using True
    by (auto simp: round_half_even_def Let_def)
next
  case False
  have "\<lfloor>x\<rfloor> \<le> \<lfloor>y\<rfloor>" using assms by (rule floor_mono)
  then have "\<lfloor>x\<rfloor> + 1 \<le> \<lfloor>y\<rfloor>" using False by simp
  then show ?thesis
    using rhe_floor_bounds[of x] rhe_floor_bounds[of y] by linarith
qed

lemma rhe_error: "\<bar>of_int (round_half_even x) - x\<bar> \<le> 1 / 2"
proof -
  have "of_int \<lfloor>x\<rfloor> \<le> x" "x < of_int \<lfloor>x\<rfloor> + 1" by linarith+
  then show ?thesis
    by (auto simp: round_half_even_def Let_def abs_le_iff)
qed

lemma rhe_le: "x \<le> of_int b \<Longrightarrow> round_half_even x \<le> b"
  using rhe_mono[of x "of_int b"] by (simp add: rhe_of_int)

lemma rhe_ge: "of_int a \<le> x \<Longrightarrow> a \<le> round_half_even x"
  using rhe_mono[of "of_int a" x] by (simp add: rhe_of_int)

lemma round_binary32_pos:
  "0 < x \<Longrightarrow> round_binary32 x =
     of_int (round_half_even (x / 2 powi (binade x - 23))) * 2 powi (binade x - 23)"
  by (simp add: round_binary32_def Let_def)

lemma round_binary32_neg: "round_binary32 (- x) = - round_binary32 x"
  by (simp add: round_binary32_def Let_def binade_def sgn_minus)

lemma binade_upper: "0 < x \<Longrightarrow> x < 2 powi (binade x + 1)"
proof -
  assume x: "0 < x"
  have "x < 2 powi (floor_log2 x + 1)" using floor_log2_bounds[OF x] by simp
  also have "\<dots> \<le> 2 powi (binade x + 1)"
    using x by (intro power_int_increasing) (simp_all add: binade_def)
  finally show ?thesis .
qed

lemma binade_lower: "0 < x \<Longrightarrow> - 126 \<le> floor_log2 x \<Longrightarrow> 2 powi (binade x) \<le> x"
  using floor_log2_bounds[of x] by (simp add: binade_def max_def)

lemma binade_mono: "0 < x \<Longrightarrow> x \<le> y \<Longrightarrow> binade x \<le> binade y"
  using floor_log2_mono[of x y] by (simp add: binade_def)

lemma powi_split: "(2::rat) powi (e + 1) = 2 powi 24 * 2 powi (e - 23)"
  using power_int_add[of "2::rat" 24 "e - 23"] by (simp add: add.commute)

lemma powi_split0: "(2::rat) powi e = 2 powi 23 * 2 powi (e - 23)"
  using power_int_add[of "2::rat" 23 "e - 23"] by simp

lemma round_binary32_upper:
  assumes x: "0 < x"
  shows "round_binary32 x \<le> 2 powi (binade x + 1)"
proof -
  let ?q = "(2::rat) powi (binade x - 23)"
  have q: "0 < ?q" by simp
  have "x < 2 powi 24 * ?q" using binade_upper[OF x] powi_split[of "binade x"] by simp
  then have "x / ?q \<le> of_int (2 ^ 24)" using q by (simp add: field_simps)
  then have "round_half_even (x / ?q) \<le> 2 ^ 24" by (rule rhe_le)
  then have "(of_int (round_half_even (x / ?q)) :: rat) \<le> of_int (2 ^ 24)"
    by (simp only: of_int_le_iff)
  then have "of_int (round_half_even (x / ?q)) * ?q \<le> 2 powi 24 * ?q"
    using q by simp
  then show ?thesis
    using round_binary32_pos[OF x] powi_split[of "binade x"] by simp
qed

lemma round_binary32_lower:
  assumes x: "0 < x" and n: "- 126 \<le> floor_log2 x"
  shows "2 powi (binade x) \<le> round_binary32 x"
proof -
  let ?q = "(2::rat) powi (binade x - 23)"
  have q: "0 < ?q" by simp
  have "2 powi 23 * ?q \<le> x" using binade_lower[OF x n] powi_split0[of "binade x"] by simp
  then have "of_int (2 ^ 23) \<le> x / ?q" using q by (simp add: field_simps)
  then have "2 ^ 23 \<le> round_half_even (x / ?q)" by (rule rhe_ge)
  then have "(of_int (2 ^ 23) :: rat) \<le> of_int (round_half_even (x / ?q))"
    by (simp only: of_int_le_iff)
  then have "2 powi 23 * ?q \<le> of_int (round_half_even (x / ?q)) * ?q"
    using q by simp
  then show ?thesis
    using round_binary32_pos[OF x] powi_split0[of "binade x"] by simp
qed

lemma round_binary32_nonneg: "0 \<le> x \<Longrightarrow> 0 \<le> round_binary32 x"
proof (cases "x = 0")
  case True
  then show ?thesis by (simp add: round_binary32_def)
next
  case False
  assume "0 \<le> x"
  then have x: "0 < x" using False by simp
  have "0 \<le> x / 2 powi (binade x - 23)" using x by simp
  then have "0 \<le> round_half_even (x / 2 powi (binade x - 23))"
    using rhe_ge[of 0] by simp
  then show ?thesis using round_binary32_pos[OF x] by simp
qed

lemma round_binary32_mono:
  assumes "0 \<le> x" "x \<le> y"
  shows "round_binary32 x \<le> round_binary32 y"
proof (cases "x = 0")
  case True
  then show ?thesis using round_binary32_nonneg[of y] assms by (simp add: round_binary32_def)
next
  case False
  then have x: "0 < x" using assms by simp
  then have y: "0 < y" using assms by simp
  show ?thesis
  proof (cases "binade x = binade y")
    case True
    let ?q = "(2::rat) powi (binade x - 23)"
    have "x / ?q \<le> y / ?q" using assms by (simp add: divide_right_mono)
    then have "round_half_even (x / ?q) \<le> round_half_even (y / ?q)" by (rule rhe_mono)
    then have "(of_int (round_half_even (x / ?q)) :: rat) * ?q \<le> of_int (round_half_even (y / ?q)) * ?q"
      by simp
    then show ?thesis using round_binary32_pos[OF x] round_binary32_pos[OF y] True by simp
  next
    case False
    then have lt: "binade x + 1 \<le> binade y" using binade_mono[OF x assms(2)] by simp
    then have n: "- 126 \<le> floor_log2 y" using y by (simp add: binade_def max_def split: if_splits)
    have "round_binary32 x \<le> 2 powi (binade x + 1)" by (rule round_binary32_upper[OF x])
    also have "\<dots> \<le> 2 powi (binade y)" using lt by (intro power_int_increasing) simp_all
    also have "\<dots> \<le> round_binary32 y" by (rule round_binary32_lower[OF y n])
    finally show ?thesis .
  qed
qed

lemma round_binary32_error:
  assumes x: "0 < x"
  shows "\<bar>round_binary32 x - x\<bar> \<le> 2 powi (binade x - 24)"
proof -
  let ?q = "(2::rat) powi (binade x - 23)"
  have q: "0 < ?q" by simp
  have "\<bar>of_int (round_half_even (x / ?q)) - x / ?q\<bar> \<le> 1 / 2" by (rule rhe_error)
  then have "\<bar>of_int (round_half_even (x / ?q)) - x / ?q\<bar> * ?q \<le> 1 / 2 * ?q"
    using q by (simp only: mult_le_cancel_right_pos)
  moreover have "\<bar>of_int (round_half_even (x / ?q)) - x / ?q\<bar> * ?q
      = \<bar>of_int (round_half_even (x / ?q)) * ?q - x\<bar>"
  proof -
    have "\<bar>of_int (round_half_even (x / ?q)) - x / ?q\<bar> * ?q
        = \<bar>(of_int (round_half_even (x / ?q)) - x / ?q) * ?q\<bar>"
      using q by (intro abs_mult_pos) simp
    also have "(of_int (round_half_even (x / ?q)) - x / ?q) * ?q
        = of_int (round_half_even (x / ?q)) * ?q - x"
      using q by (simp add: left_diff_distrib)
    finally show ?thesis .
  qed
  moreover have "1 / 2 * ?q = 2 powi (binade x - 24)"
    using power_int_add[of "2::rat" "- 1" "binade x - 23"] by (simp add: power_int_minus)
  ultimately show ?thesis using round_binary32_pos[OF x] by simp
qed

lemma round_binary32_of_int:
  assumes "0 < n" "n < 2 ^ 24"
  shows "round_binary32 (of_int n) = of_int n"
proof -
  let ?x = "of_int n :: rat"
  have x: "0 < ?x" using assms by simp
  have "1 \<le> ?x" using assms by simp
  have fl0: "0 \<le> floor_log2 ?x" using floor_log2_mono[of 1 ?x] \<open>1 \<le> ?x\<close>
    by (simp add: floor_log2_unique[of 1 0])
  have "2 powi (floor_log2 ?x) \<le> ?x" using floor_log2_bounds[OF x] by simp
  also have "?x < of_int (2 ^ 24)" using assms(2) by (simp only: of_int_less_iff)
  also have "(of_int (2 ^ 24) :: rat) = 2 powi 24" by simp
  finally have "floor_log2 ?x < 24" by (rule powi2_less_imp)
  then have b: "binade ?x = floor_log2 ?x" "0 \<le> 23 - binade ?x"
    using fl0 assms(1) by (simp_all add: binade_def)
  have "?x / 2 powi (binade ?x - 23) = ?x * 2 powi (23 - binade ?x)"
    using power_int_minus[of "2::rat" "binade ?x - 23"] by (simp add: field_simps)
  also have "\<dots> = of_int (n * 2 ^ nat (23 - binade ?x))"
    using b(2) by (simp add: power_int_def)
  finally have "round_half_even (?x / 2 powi (binade ?x - 23)) = n * 2 ^ nat (23 - binade ?x)"
    by (simp only: rhe_of_int)
  then have "round_binary32 ?x = of_int (n * 2 ^ nat (23 - binade ?x)) * 2 powi (binade ?x - 23)"
    using round_binary32_pos[OF x] by simp
  also have "\<dots> = ?x * (2 powi (23 - binade ?x) * 2 powi (binade ?x - 23))"
    using b(2) by (simp add: power_int_def)
  also have "2 powi (23 - binade ?x) * 2 powi (binade ?x - 23) = (1::rat)"
    using power_int_add[of "2::rat" "23 - binade ?x" "binade ?x - 23"] by simp
  finally show ?thesis by simp
qed

text \<open>Below a power of two, the rounded value stays at or below it.\<close>

lemma round_binary32_below_power:
  assumes x: "0 \<le> x" and lt: "x < 2 powi k" and k: "- 125 \<le> k"
  shows "round_binary32 x \<le> 2 powi k"
proof (cases "x = 0")
  case True
  then show ?thesis by (simp add: round_binary32_def)
next
  case False
  then have p: "0 < x" using x by simp
  have "2 powi (floor_log2 x) \<le> x" using floor_log2_bounds[OF p] by simp
  then have "(2::rat) powi (floor_log2 x) < 2 powi k" using lt by linarith
  then have "floor_log2 x < k" by (rule powi2_less_imp)
  then have "binade x + 1 \<le> k" using k p by (simp add: binade_def)
  then have "(2::rat) powi (binade x + 1) \<le> 2 powi k"
    by (intro power_int_increasing) simp_all
  then show ?thesis using round_binary32_upper[OF p] by linarith
qed

lemma round_binary32_abs: "\<bar>round_binary32 x\<bar> = round_binary32 \<bar>x\<bar>"
proof (cases "0 \<le> x")
  case True
  then show ?thesis using round_binary32_nonneg[of x] by simp
next
  case False
  then have "0 \<le> - x" by simp
  then have "0 \<le> round_binary32 (- x)" by (rule round_binary32_nonneg)
  then show ?thesis using False by (simp add: round_binary32_neg)
qed

lemma to_f32_finite:
  assumes "\<bar>x\<bar> < 2 powi 127"
  shows "to_f32 x = Finite (round_binary32 x)"
proof -
  have "round_binary32 \<bar>x\<bar> \<le> 2 powi 127"
    using assms by (intro round_binary32_below_power) simp_all
  then have "\<bar>round_binary32 x\<bar> \<le> 2 powi 127" by (simp add: round_binary32_abs)
  moreover have "(2::rat) powi 127 < 2 powi 128" by simp
  ultimately have "round_binary32 x < 2 powi 128" "- (2 powi 128) < round_binary32 x"
    by linarith+
  then show ?thesis by (simp add: to_f32_def Let_def del: power_int_numeral)
qed

lemma to_f32_zero: "to_f32 0 = Finite 0"
  by (simp add: to_f32_def round_binary32_def)

lemma f32_of_int_small:
  assumes "\<bar>n\<bar> < 2 ^ 24"
  shows "f32_of_int n = Finite (of_int n)"
proof -
  have "\<bar>of_int n :: rat\<bar> = of_int \<bar>n\<bar>" by simp
  also have "\<dots> < of_int (2 ^ 24)" using assms by (simp only: of_int_less_iff)
  also have "\<dots> \<le> 2 powi 127" by simp
  finally have f: "to_f32 (of_int n) = Finite (round_binary32 (of_int n))"
    by (rule to_f32_finite)
  have "round_binary32 (of_int n) = of_int n"
  proof (cases "0 < n")
    case True
    then show ?thesis using assms by (intro round_binary32_of_int) simp_all
  next
    case False
    show ?thesis
    proof (cases "n = 0")
      case True
      then show ?thesis by (simp add: round_binary32_def)
    next
      case f: False
      then have "0 < - n" "- n < 2 ^ 24" using False assms by simp_all
      then have "round_binary32 (of_int (- n)) = of_int (- n)" by (rule round_binary32_of_int)
      then show ?thesis by (simp add: round_binary32_neg)
    qed
  qed
  then show ?thesis using f by (simp add: f32_of_int_def)
qed

lemma f32_of_int_sint_finite: "\<exists>y. f32_of_int (sint (sz :: 32 word)) = Finite y"
proof -
  have "\<bar>sint sz\<bar> \<le> 2 ^ 31" using sint_range_size[of sz] by (simp add: word_size abs_le_iff)
  then have "(of_int \<bar>sint sz\<bar> :: rat) \<le> of_int (2 ^ 31)" by (simp only: of_int_le_iff)
  also have "\<dots> < 2 powi 127" by simp
  finally have "\<bar>of_int (sint sz) :: rat\<bar> < 2 powi 127" by simp
  then have "to_f32 (of_int (sint sz)) = Finite (round_binary32 (of_int (sint sz)))"
    by (rule to_f32_finite)
  then show ?thesis unfolding f32_of_int_def by (rule exI)
qed

lemma needed_zero: "needed (Finite 0) sz = Finite 0"
  using f32_of_int_sint_finite[of sz] by (auto simp: needed_def to_f32_zero)

text \<open>The conversion of a count is monotone for the comparison of the two loops.\<close>

lemma to_f32_nonneg_cases:
  assumes "0 \<le> x"
  shows "to_f32 x = PosInf \<and> 2 powi 128 \<le> round_binary32 x
       \<or> to_f32 x = Finite (round_binary32 x) \<and> round_binary32 x < 2 powi 128"
  using round_binary32_nonneg[OF assms]
  by (auto simp: to_f32_def Let_def simp del: power_int_numeral)

lemma f32_gt_mono:
  assumes "0 \<le> x" "x \<le> y" "f32_gt (to_f32 x) n"
  shows "f32_gt (to_f32 y) n"
proof -
  have y: "0 \<le> y" using assms by simp
  have m: "round_binary32 x \<le> round_binary32 y" using assms(1,2) by (rule round_binary32_mono)
  show ?thesis
    using to_f32_nonneg_cases[OF assms(1)] to_f32_nonneg_cases[OF y] m assms(3)
    by (cases n) auto
qed

lemma f32_of_size_gt_mono: "p \<le> p' \<Longrightarrow> f32_gt (f32_of_size p) n \<Longrightarrow> f32_gt (f32_of_size p') n"
  unfolding f32_of_size_def by (rule f32_gt_mono[of "of_nat p"]) simp_all

lemma f32_of_size_gt_zero: "f32_gt (f32_of_size p) (Finite 0) \<longleftrightarrow> 0 < p"
proof (cases "p = 0")
  case True
  then show ?thesis by (simp add: f32_of_size_def to_f32_zero)
next
  case False
  let ?x = "of_nat p :: rat"
  have x: "0 < ?x" "1 \<le> ?x" using False by simp_all
  have fl0: "0 \<le> floor_log2 ?x" using floor_log2_mono[of 1 ?x] x
    by (simp add: floor_log2_unique[of 1 0])
  then have "2 powi (binade ?x) \<le> round_binary32 ?x"
    using x by (intro round_binary32_lower) simp_all
  moreover have "(0::rat) < 2 powi (binade ?x)" by simp
  ultimately have "0 < round_binary32 ?x" by linarith
  then show ?thesis using False to_f32_nonneg_cases[of ?x]
    by (auto simp: f32_of_size_def)
qed

section \<open>The table for equal borders\<close>

lemma f32_of_int_zero: "f32_of_int 0 = Finite 0"
  by (simp add: f32_of_int_def to_f32_zero)

lemma tmp_zero_divisor: "f32_div (Finite 255) (f32_of_int (source_min - source_min)) = PosInf"
  by (simp add: f32_of_int_zero)

lemma mapping_entry_PosInf: "mapping_entry PosInf source_min i = Inl UndefinedConversion"
  by (cases "f32_of_int (max 0 (i - source_min))") (simp_all add: mapping_entry_def)

lemma build_mapping_equal_borders:
  "build_mapping source_min source_min = Inl UndefinedConversion"
  unfolding build_mapping_def Let_def tmp_zero_divisor
  by (subst upt_conv_Cons) (simp_all add: mapping_entry_PosInf)

section \<open>The histogram\<close>

lemma length_bump: "length (bump f v) = length f"
  by (simp add: bump_def)

lemma nth_bump:
  "k < length f \<Longrightarrow> bump f v ! k = f ! k + (if unat v = k then 1 else 0)"
  by (simp add: bump_def nth_list_update)

lemma fold_bump:
  "length (fold (\<lambda>i f. bump f (img ! i)) idx f) = length f
   \<and> (\<forall>k<length f. fold (\<lambda>i f. bump f (img ! i)) idx f ! k
          = f ! k + length (filter (\<lambda>i. unat (img ! i) = k) idx))"
proof (induction idx arbitrary: f)
  case Nil
  show ?case by simp
next
  case (Cons i idx)
  show ?case
    using Cons.IH[of "bump f (img ! i)"] by (simp add: length_bump nth_bump)
qed

lemma length_count_block: "length (count_block img s e f) = length f"
  using fold_bump[of img "[s..<e]" f] by (simp add: count_block_def)

lemma nth_count_block:
  "k < length f \<Longrightarrow>
     count_block img s e f ! k = f ! k + length (filter (\<lambda>i. unat (img ! i) = k) [s..<e])"
  using fold_bump[of img "[s..<e]" f] by (simp add: count_block_def)

lemma length_thread_freq: "length (thread_freq img bs t) = 256"
  by (simp add: thread_freq_def length_count_block)

lemma nth_thread_freq:
  "k < 256 \<Longrightarrow>
     thread_freq img bs t ! k
       = length (filter (\<lambda>i. unat (img ! i) = k) [bs * t..<bs * (t + 1)])"
  by (simp add: thread_freq_def nth_count_block)

lemma length_merge_freq: "length (merge_freq freq tmp_freq) = 256"
  by (simp add: merge_freq_def)

lemma nth_merge_freq: "k < 256 \<Longrightarrow> merge_freq freq tmp_freq ! k = freq ! k + tmp_freq ! k"
  by (simp add: merge_freq_def)

lemma fold_merge:
  "length f = 256 \<Longrightarrow>
     length (fold (\<lambda>t fr. merge_freq fr (g t)) order f) = 256
     \<and> (\<forall>k<256. fold (\<lambda>t fr. merge_freq fr (g t)) order f ! k
            = f ! k + sum_list (map (\<lambda>t. g t ! k) order))"
proof (induction order arbitrary: f)
  case Nil
  then show ?case by simp
next
  case (Cons t order)
  show ?case
    using Cons.IH[of "merge_freq f (g t)"]
    by (simp add: length_merge_freq nth_merge_freq)
qed

text \<open>The order in which the threads pass the critical section does not matter.\<close>

lemma sum_list_schedule:
  assumes "mset order = mset [0..<T]"
  shows "sum_list (map h order) = (sum_list (map h [0..<T]) :: nat)"
proof -
  have "mset (map h order) = mset (map h [0..<T])" using assms by (simp only: mset_map)
  then have "sum_mset (mset (map h order)) = sum_mset (mset (map h [0..<T]))" by simp
  then show ?thesis by (simp only: sum_mset_sum_list)
qed

text \<open>The blocks of the threads tile the indices below \<open>bs * T\<close>.\<close>

lemma blocks_tile:
  "sum_list (map (\<lambda>t. length (filter P [bs * t..<bs * (t + 1)])) [0..<T])
     = length (filter P [0..<bs * T])"
proof (induction T)
  case 0
  show ?case by simp
next
  case (Suc T)
  have "[0..<bs * Suc T] = [0..<bs * T] @ [bs * T..<bs * (T + 1)]"
    using upt_add_eq_append[of 0 "bs * T" bs] by (simp add: add.commute)
  then show ?case using Suc by simp
qed

lemma filter_indices:
  "length (filter (\<lambda>i. P (xs ! i)) [0..<length xs]) = length (filter P xs)"
proof -
  have "filter P xs = filter P (map (\<lambda>i. xs ! i) [0..<length xs])" by (simp add: map_nth)
  also have "\<dots> = map (\<lambda>i. xs ! i) (filter (\<lambda>i. P (xs ! i)) [0..<length xs])"
    by (simp add: filter_map comp_def)
  finally show ?thesis by (metis length_map)
qed

lemma frequencies_props:
  assumes T: "0 < T" and order: "mset order = mset [0..<T]"
  shows "length (frequencies T order img) = 256"
    and "k < 256 \<Longrightarrow>
           frequencies T order img ! k = length (filter (\<lambda>x. unat x = k) img)"
proof -
  let ?bs = "length img div T"
  let ?P = "\<lambda>k i. unat (img ! i) = k"
  let ?f = "fold (\<lambda>t fr. merge_freq fr (thread_freq img ?bs t)) order (replicate 256 0)"
  have m: "length ?f = 256"
    "\<And>k. k < 256 \<Longrightarrow> ?f ! k = sum_list (map (\<lambda>t. thread_freq img ?bs t ! k) order)"
    using fold_merge[of "replicate 256 0" "thread_freq img ?bs" order] by simp_all
  show "length (frequencies T order img) = 256"
    using m(1) by (simp add: frequencies_def Let_def length_count_block)
  assume k: "k < 256"
  have "?f ! k = sum_list (map (\<lambda>t. thread_freq img ?bs t ! k) [0..<T])"
    using m(2)[OF k] sum_list_schedule[OF order] by simp
  also have "\<dots> = sum_list (map (\<lambda>t. length (filter (?P k) [?bs * t..<?bs * (t + 1)])) [0..<T])"
    using k by (simp add: nth_thread_freq)
  also have "\<dots> = length (filter (?P k) [0..<?bs * T])" by (rule blocks_tile)
  finally have blocks: "?f ! k = length (filter (?P k) [0..<?bs * T])" .
  have le: "?bs * T \<le> length img" using T by simp
  have "[0..<length img] = [0..<?bs * T] @ [?bs * T..<length img]"
    using upt_add_eq_append[of 0 "?bs * T" "length img - ?bs * T"] le by simp
  then have split: "length (filter (?P k) [0..<length img])
      = length (filter (?P k) [0..<?bs * T]) + length (filter (?P k) [?bs * T..<length img])"
    by (metis filter_append length_append)
  have "frequencies T order img ! k
      = ?f ! k + length (filter (?P k) [?bs * T..<length img])"
    using k m(1) by (simp add: frequencies_def Let_def nth_count_block)
  also have "\<dots> = length (filter (?P k) [0..<length img])" using blocks split by simp
  also have "\<dots> = length (filter (\<lambda>x. unat x = k) img)" by (rule filter_indices)
  finally show "frequencies T order img ! k = length (filter (\<lambda>x. unat x = k) img)" .
qed

lemma sum_indicator:
  "sum_list (map (\<lambda>k. if a = k then 1 else (0::nat)) [0..<n]) = (if a < n then 1 else 0)"
  by (induction n) auto

lemma sum_bins:
  "sum_list (map (\<lambda>k. length (filter (\<lambda>x. unat x = k) img)) [0..<256])
     = length (img :: sample list)"
proof (induction img)
  case Nil
  show ?case by simp
next
  case (Cons x img)
  have x: "unat x < 256" using unsigned_less[of x] by simp
  have "sum_list (map (\<lambda>k. length (filter (\<lambda>y. unat y = k) (x # img))) [0..<256])
      = sum_list (map (\<lambda>k. (if unat x = k then 1 else 0)
                              + length (filter (\<lambda>y. unat y = k) img)) [0..<256])"
    by (intro arg_cong[where f = sum_list] map_cong) auto
  also have "\<dots> = sum_list (map (\<lambda>k. if unat x = k then 1 else 0) [0..<256])
                  + sum_list (map (\<lambda>k. length (filter (\<lambda>y. unat y = k) img)) [0..<256])"
    by (rule sum_list_addf)
  also have "\<dots> = 1 + length img" using x Cons by (simp only: sum_indicator) simp
  finally show ?case by simp
qed

lemma frequencies_eq:
  assumes "0 < T" "mset order = mset [0..<T]"
  shows "frequencies T order img
           = map (\<lambda>k. length (filter (\<lambda>x. unat x = k) img)) [0..<256]"
  using frequencies_props[OF assms] by (intro nth_equalityI) simp_all

lemma frequencies_sum:
  assumes "0 < T" "mset order = mset [0..<T]"
  shows "sum_list (frequencies T order img) = length img"
  by (simp only: frequencies_eq[OF assms] sum_bins)

section \<open>Applying the table\<close>

lemma apply_in_order_props:
  assumes "distinct order" "set order \<subseteq> {..<length img}"
  shows "length (apply_in_order mapping order img) = length img
         \<and> (\<forall>i<length img. apply_in_order mapping order img ! i
                = (if i \<in> set order then mapping ! unat (img ! i) else img ! i))"
  using assms
proof (induction order arbitrary: img)
  case Nil
  show ?case by (simp add: apply_in_order_def)
next
  case (Cons j order)
  let ?img = "img[j := mapping ! unat (img ! j)]"
  have j: "j < length img" "j \<notin> set order" using Cons.prems by simp_all
  have "distinct order" "set order \<subseteq> {..<length ?img}" using Cons.prems by simp_all
  from Cons.IH[OF this]
  have ih: "length (apply_in_order mapping order ?img) = length img"
    "\<And>i. i < length img \<Longrightarrow> apply_in_order mapping order ?img ! i
        = (if i \<in> set order then mapping ! unat (?img ! i) else ?img ! i)"
    by simp_all
  have unfold: "apply_in_order mapping (j # order) img = apply_in_order mapping order ?img"
    by (simp add: apply_in_order_def)
  show ?case
    unfolding unfold using ih j by (auto simp: nth_list_update)
qed

lemma apply_in_order_eq:
  assumes "mset order = mset [0..<length img]"
  shows "apply_in_order mapping order img = map (\<lambda>x. mapping ! unat x) img"
proof -
  have d: "distinct order" using assms by (metis distinct_upt mset_eq_imp_distinct_iff)
  have s: "set order = {0..<length img}" using assms by (metis mset_eq_setD set_upt)
  have "set order \<subseteq> {..<length img}" using s by auto
  from apply_in_order_props[OF d this, of mapping] s
  show ?thesis by (intro nth_equalityI) auto
qed

lemma apply_mapping_eq: "apply_mapping mapping img = map (\<lambda>x. mapping ! unat x) img"
  unfolding apply_mapping_def by (rule apply_in_order_eq) simp

section \<open>The histogram of \<^verbatim>\<open>image.cpp\<close>\<close>

lemma sum_list_bump: "length f = 256 \<Longrightarrow> sum_list (bump f v) = sum_list f + 1"
proof -
  assume l: "length f = 256"
  have "unat v < length f" using unsigned_less[of v] l by simp
  then show ?thesis
    using elem_le_sum_list[of "unat v" f] by (simp add: bump_def sum_list_update)
qed

lemma sum_list_fold_bump:
  "length f = 256 \<Longrightarrow>
     sum_list (fold (\<lambda>i f. bump f (img ! i)) idx f) = sum_list f + length idx"
  by (induction idx arbitrary: f) (simp_all add: sum_list_bump length_bump)

lemma sum_list_thread_freq: "sum_list (thread_freq img bs t) = bs"
  by (simp add: thread_freq_def count_block_def sum_list_fold_bump)

lemma sum_list_merge_freq:
  assumes "length a = 256" "length b = 256"
  shows "sum_list (merge_freq a b) = sum_list a + sum_list b"
proof -
  have "sum_list (merge_freq a b)
      = sum_list (map (nth a) [0..<256]) + sum_list (map (nth b) [0..<256])"
    unfolding merge_freq_def by (rule sum_list_addf)
  also have "map (nth a) [0..<256] = a" using assms(1) map_nth[of a] by simp
  also have "map (nth b) [0..<256] = b" using assms(2) map_nth[of b] by simp
  finally show ?thesis .
qed

lemma sum_list_fold_merge:
  "length f = 256 \<Longrightarrow>
     sum_list (fold (\<lambda>t fr. merge_freq fr (thread_freq img bs t)) order f)
       = sum_list f + bs * length order"
proof (induction order arbitrary: f)
  case Nil
  then show ?case by simp
next
  case (Cons t order)
  have "length (merge_freq f (thread_freq img bs t)) = 256" by (rule length_merge_freq)
  from Cons.IH[OF this] show ?case
    using Cons.prems
    by (simp add: sum_list_merge_freq length_thread_freq sum_list_thread_freq)
qed

lemma sum_list_count_tail_image:
  "length f = 256 \<Longrightarrow>
     sum_list (fold (\<lambda>i f. fold (\<lambda>color f. bump f (raw_img ! i)) [0..<3] f) idx f)
       = sum_list f + 3 * length idx"
proof (induction idx arbitrary: f)
  case Nil
  then show ?case by simp
next
  case (Cons i idx)
  let ?f = "fold (\<lambda>color f. bump f (raw_img ! i)) [0..<3] f"
  have 3: "[0..<3] = [0, 1, 2]" by (simp add: upt_rec)
  have l: "length ?f = 256" using Cons.prems by (simp add: 3 length_bump)
  have s: "sum_list ?f = sum_list f + 3"
    using Cons.prems by (simp add: 3 sum_list_bump length_bump)
  show ?case using Cons.IH[OF l] s by simp
qed

text \<open>
  Every sample of the tail is counted three times: the bins of \<^verbatim>\<open>image.cpp\<close> add up to
  the number of samples only when the thread count divides it.
\<close>

lemma frequencies_image_sum:
  assumes T: "0 < T" and order: "mset order = mset [0..<T]"
  shows "sum_list (frequencies_image T order raw_img)
           = length raw_img + 2 * (length raw_img mod T)"
proof -
  let ?n = "length raw_img"
  let ?f = "fold (\<lambda>t fr. merge_freq fr (thread_freq raw_img (?n div T) t)) order
              (replicate 256 0)"
  have "size (mset order) = size (mset [0..<T])" using order by simp
  then have lo: "length order = T" by simp
  have l: "length ?f = 256"
    using fold_merge[of "replicate 256 0" "thread_freq raw_img (?n div T)" order] by simp
  have s: "sum_list ?f = (?n div T) * T"
    using sum_list_fold_merge[of "replicate 256 0" raw_img "?n div T" order] lo by simp
  have "sum_list (frequencies_image T order raw_img)
      = (?n div T) * T + 3 * (?n - (?n div T) * T)"
    using sum_list_count_tail_image[OF l, of raw_img "[(?n div T) * T..<?n]"] s
    by (simp add: frequencies_image_def count_tail_image_def Let_def)
  also have "?n - (?n div T) * T = ?n mod T" by (simp add: minus_div_mult_eq_mod)
  also have "(?n div T) * T + 3 * (?n mod T) = ?n + 2 * (?n mod T)" by simp
  finally show ?thesis .
qed

text \<open>
  C3. \<^verbatim>\<open>autocontrast.cpp\<close> counts every sample once (\<open>frequencies_sum\<close>). In
  \<^verbatim>\<open>image.cpp\<close>, three samples and two threads give blocks of one sample and a tail of
  one sample, which is counted three times: the bins add up to 5, not to 3.
\<close>

theorem frequencies_image_tail_thrice:
  "sum_list (frequencies_image 2 [0, 1] [1, 2, 3]) = 5
   \<and> sum_list (frequencies 2 [0, 1] [1, 2, 3]) = 3"
proof -
  have o: "mset [0, 1] = mset [0..<(2::nat)]" by (simp add: upt_rec)
  show ?thesis
    using frequencies_image_sum[OF _ o, of "[1, 2, 3]"] frequencies_sum[OF _ o, of "[1, 2, 3]"]
    by simp
qed

section \<open>The table applied by \<^verbatim>\<open>image.cpp\<close>\<close>

lemma apply_mapping_image_rest:
  assumes "sz \<le> i" "i < length raw_img" "sz \<le> length raw_img"
  shows "apply_mapping_image mapping sz raw_img ! i = raw_img ! i"
proof -
  have "distinct [0..<sz]" "set [0..<sz] \<subseteq> {..<length raw_img}" using assms(3) by auto
  from apply_in_order_props[OF this, of mapping] assms(1,2)
  show ?thesis by (simp add: apply_mapping_image_def)
qed

text \<open>
  C4. \<^verbatim>\<open>autocontrast.cpp\<close> maps every sample (\<open>apply_in_order_eq\<close>). \<^verbatim>\<open>image.cpp\<close> maps
  the first \<open>size\<close> of its \<open>3 * size\<close> samples only: for one pixel with the samples 1, 2, 3
  and the table that inverts every value, the second and third sample stay as they were.
\<close>

theorem apply_mapping_image_first_plane_only:
  "apply_mapping_image (map (\<lambda>v. 255 - of_nat v) [0..<256]) 1 [1, 2, 3] = [254, 2, 3]
   \<and> apply_mapping (map (\<lambda>v. 255 - of_nat v) [0..<256]) [1, 2, 3] = [254, 253, 252]"
  by (simp add: apply_mapping_image_def apply_in_order_def apply_mapping_eq)

section \<open>The two border loops\<close>

lemma sum_upto_first:
  "v \<le> u \<Longrightarrow> sum_list (map f [v..u]) = f v + (sum_list (map f [v + 1..u]) :: nat)"
  by (simp add: upto_rec1)

lemma sum_upto_last:
  "v \<le> u \<Longrightarrow> sum_list (map f [v..u]) = (sum_list (map f [v..u - 1]) :: nat) + f u"
  by (simp add: upto_rec2)

lemma scan_up_props:
  "0 \<le> v \<Longrightarrow> limit \<le> int (length freq) \<Longrightarrow> v \<le> limit \<Longrightarrow>
   \<exists>r. scan_up limit nb freq pref v = Inr r \<and> v \<le> r \<and> r \<le> limit
      \<and> (\<forall>u. v \<le> u \<and> u < r \<longrightarrow>
             \<not> f32_gt (f32_of_size (pref + sum_list (map (\<lambda>i. freq ! nat i) [v..u]))) nb)
      \<and> (r < limit \<longrightarrow>
             f32_gt (f32_of_size (pref + sum_list (map (\<lambda>i. freq ! nat i) [v..r]))) nb)"
proof (induction limit nb freq pref v rule: scan_up.induct)
  case (1 limit nb freq pref v)
  let ?S = "\<lambda>p a b. p + sum_list (map (\<lambda>i. freq ! nat i) [a..b])"
  show ?case
  proof (cases "v < limit")
    case False
    then have "scan_up limit nb freq pref v = Inr v" by (subst scan_up.simps) simp
    then show ?thesis using False "1.prems" by auto
  next
    case True
    then have inb: "0 \<le> v \<and> v < int (length freq)" using "1.prems" by simp
    let ?p = "pref + freq ! nat v"
    show ?thesis
    proof (cases "f32_gt (f32_of_size ?p) nb")
      case c: True
      then have "scan_up limit nb freq pref v = Inr v"
        using True inb by (subst scan_up.simps) (simp add: Let_def)
      then show ?thesis using c True by auto
    next
      case c: False
      have step: "scan_up limit nb freq pref v = scan_up limit nb freq ?p (v + 1)"
        using True inb c by (subst scan_up.simps) (simp add: Let_def)
      have "\<exists>r. scan_up limit nb freq ?p (v + 1) = Inr r \<and> v + 1 \<le> r \<and> r \<le> limit
          \<and> (\<forall>u. v + 1 \<le> u \<and> u < r \<longrightarrow> \<not> f32_gt (f32_of_size (?S ?p (v + 1) u)) nb)
          \<and> (r < limit \<longrightarrow> f32_gt (f32_of_size (?S ?p (v + 1) r)) nb)"
        using "1.IH"[OF True inb refl c] "1.prems" True by simp
      then obtain r where r: "scan_up limit nb freq ?p (v + 1) = Inr r" "v + 1 \<le> r" "r \<le> limit"
          "\<And>u. v + 1 \<le> u \<Longrightarrow> u < r \<Longrightarrow> \<not> f32_gt (f32_of_size (?S ?p (v + 1) u)) nb"
          "r < limit \<Longrightarrow> f32_gt (f32_of_size (?S ?p (v + 1) r)) nb"
        by blast
      have shift: "?S pref v u = ?S ?p (v + 1) u" if "v \<le> u" for u
        using that by (simp add: sum_upto_first)
      have "\<not> f32_gt (f32_of_size (?S pref v u)) nb" if "v \<le> u" "u < r" for u
      proof (cases "u = v")
        case True
        then show ?thesis using c by simp
      next
        case False
        then show ?thesis using that r(4)[of u] shift[of u] by (simp add: ac_simps)
      qed
      moreover have "r < limit \<Longrightarrow> f32_gt (f32_of_size (?S pref v r)) nb"
        using r(5) r(2) shift[of r] by (simp add: ac_simps)
      ultimately show ?thesis using r(1,2,3) step by auto
    qed
  qed
qed

lemma scan_down_props:
  "v < int (length freq) \<Longrightarrow> - 1 \<le> limit \<Longrightarrow> limit \<le> v \<Longrightarrow>
   \<exists>r. scan_down limit nb freq pref v = Inr r \<and> limit \<le> r \<and> r \<le> v
      \<and> (\<forall>u. r < u \<and> u \<le> v \<longrightarrow>
             \<not> f32_gt (f32_of_size (pref + sum_list (map (\<lambda>i. freq ! nat i) [u..v]))) nb)
      \<and> (limit < r \<longrightarrow>
             f32_gt (f32_of_size (pref + sum_list (map (\<lambda>i. freq ! nat i) [r..v]))) nb)"
proof (induction limit nb freq pref v rule: scan_down.induct)
  case (1 limit nb freq pref v)
  let ?S = "\<lambda>p a b. p + sum_list (map (\<lambda>i. freq ! nat i) [a..b])"
  show ?case
  proof (cases "limit < v")
    case False
    then have "scan_down limit nb freq pref v = Inr v" by (subst scan_down.simps) simp
    then show ?thesis using False "1.prems" by auto
  next
    case True
    then have inb: "0 \<le> v \<and> v < int (length freq)" using "1.prems" by simp
    let ?p = "pref + freq ! nat v"
    show ?thesis
    proof (cases "f32_gt (f32_of_size ?p) nb")
      case c: True
      then have "scan_down limit nb freq pref v = Inr v"
        using True inb by (subst scan_down.simps) (simp add: Let_def)
      then show ?thesis using c True by auto
    next
      case c: False
      have step: "scan_down limit nb freq pref v = scan_down limit nb freq ?p (v - 1)"
        using True inb c by (subst scan_down.simps) (simp add: Let_def)
      have "\<exists>r. scan_down limit nb freq ?p (v - 1) = Inr r \<and> limit \<le> r \<and> r \<le> v - 1
          \<and> (\<forall>u. r < u \<and> u \<le> v - 1 \<longrightarrow> \<not> f32_gt (f32_of_size (?S ?p u (v - 1))) nb)
          \<and> (limit < r \<longrightarrow> f32_gt (f32_of_size (?S ?p r (v - 1))) nb)"
        using "1.IH"[OF True inb refl c] "1.prems" True by simp
      then obtain r where r: "scan_down limit nb freq ?p (v - 1) = Inr r" "limit \<le> r" "r \<le> v - 1"
          "\<And>u. r < u \<Longrightarrow> u \<le> v - 1 \<Longrightarrow> \<not> f32_gt (f32_of_size (?S ?p u (v - 1))) nb"
          "limit < r \<Longrightarrow> f32_gt (f32_of_size (?S ?p r (v - 1))) nb"
        by blast
      have shift: "?S pref u v = ?S ?p u (v - 1)" if "u \<le> v" for u
        using that by (simp add: sum_upto_last)
      have "\<not> f32_gt (f32_of_size (?S pref u v)) nb" if "r < u" "u \<le> v" for u
      proof (cases "u = v")
        case True
        then show ?thesis using c by simp
      next
        case False
        then show ?thesis using that r(4)[of u] shift[of u] by (simp add: ac_simps)
      qed
      moreover have "limit < r \<Longrightarrow> f32_gt (f32_of_size (?S pref r v)) nb"
        using r(5) r(3) shift[of r] by (simp add: ac_simps)
      ultimately show ?thesis using r(1,2,3) step by auto
    qed
  qed
qed

lemma source_min_scan_props:
  assumes "length freq = 256"
  shows "\<exists>r. source_min_scan nb freq = Inr r \<and> 0 \<le> r \<and> r \<le> 255
      \<and> (\<forall>u. 0 \<le> u \<and> u < r \<longrightarrow>
             \<not> f32_gt (f32_of_size (sum_list (map (\<lambda>i. freq ! nat i) [0..u]))) nb)
      \<and> (r < 255 \<longrightarrow>
             f32_gt (f32_of_size (sum_list (map (\<lambda>i. freq ! nat i) [0..r]))) nb)"
  using scan_up_props[of 0 255 freq nb 0] assms by (simp add: source_min_scan_def)

lemma source_max_scan_props:
  assumes "length freq = 256"
  shows "\<exists>r. source_max_scan nb freq = Inr r \<and> 0 \<le> r \<and> r \<le> 255
      \<and> (\<forall>u. r < u \<and> u \<le> 255 \<longrightarrow>
             \<not> f32_gt (f32_of_size (sum_list (map (\<lambda>i. freq ! nat i) [u..255]))) nb)
      \<and> (0 < r \<longrightarrow>
             f32_gt (f32_of_size (sum_list (map (\<lambda>i. freq ! nat i) [r..255]))) nb)"
  using scan_down_props[of 255 freq 0 nb 0] assms by (simp add: source_max_scan_def)

lemma sum_list_all_bins:
  assumes "length freq = 256"
  shows "sum_list (map (\<lambda>i. freq ! nat i) [0..255]) = sum_list freq"
proof -
  have "map (\<lambda>i. freq ! nat i) [0..255] = map (nth freq) (map nat [0..255])" by simp
  also have "map nat [0..255] = [0..<256]"
    by (intro nth_equalityI) simp_all
  also have "map (nth freq) [0..<256] = freq" using assms map_nth[of freq] by simp
  finally show ?thesis by simp
qed

text \<open>
  When the downward loop stops below the upward loop, the bins the two loops passed
  cover the whole histogram, and neither running sum exceeded the threshold.
\<close>

lemma crossed_borders_cover:
  fixes f :: "int \<Rightarrow> nat"
  assumes "0 \<le> hi" "hi < lo" "lo \<le> 255"
  shows "sum_list (map f [0..255]) \<le> sum_list (map f [0..lo - 1]) + sum_list (map f [hi + 1..255])"
proof -
  have 1: "[0..255] = [0..hi] @ [hi + 1..255]"
    using assms by (intro upto_split2) simp_all
  have 2: "[0..lo - 1] = [0..hi] @ [hi + 1..lo - 1]"
    using assms by (intro upto_split2) simp_all
  show ?thesis unfolding 1 2 by simp
qed

lemma borders_ordered:
  assumes len: "length freq = 256"
    and lo: "source_min_scan nb freq = Inr lo"
    and hi: "source_max_scan nb freq = Inr hi"
    and half: "f32_gt (f32_of_size ((sum_list freq + 1) div 2)) nb"
  shows "lo \<le> hi"
proof (rule ccontr)
  assume "\<not> lo \<le> hi"
  then have lt: "hi < lo" by simp
  let ?S = "\<lambda>a b. sum_list (map (\<lambda>i. freq ! nat i) [a..b])"
  from source_min_scan_props[OF len, of nb] lo
  have l: "0 \<le> lo" "lo \<le> 255" "\<And>u. 0 \<le> u \<Longrightarrow> u < lo \<Longrightarrow> \<not> f32_gt (f32_of_size (?S 0 u)) nb"
    by auto
  from source_max_scan_props[OF len, of nb] hi
  have h: "0 \<le> hi" "hi \<le> 255" "\<And>u. hi < u \<Longrightarrow> u \<le> 255 \<Longrightarrow> \<not> f32_gt (f32_of_size (?S u 255)) nb"
    by auto
  have a: "\<not> f32_gt (f32_of_size (?S 0 (lo - 1))) nb" using l(3)[of "lo - 1"] lt h(1) by simp
  have b: "\<not> f32_gt (f32_of_size (?S (hi + 1) 255)) nb" using h(3)[of "hi + 1"] lt l(2) by simp
  have "sum_list freq \<le> ?S 0 (lo - 1) + ?S (hi + 1) 255"
    using crossed_borders_cover[OF h(1) lt l(2), of "\<lambda>i. freq ! nat i"]
    by (simp only: sum_list_all_bins[OF len])
  then have "(sum_list freq + 1) div 2 \<le> ?S 0 (lo - 1) \<or> (sum_list freq + 1) div 2 \<le> ?S (hi + 1) 255"
    by linarith
  then show False using a b half f32_of_size_gt_mono by blast
qed

text \<open>The running sums grow with the index, so the place where a loop stops is unique.\<close>

lemma prefix_sum_mono:
  fixes f :: "int \<Rightarrow> nat"
  assumes "0 \<le> a" "a \<le> b"
  shows "sum_list (map f [0..a]) \<le> sum_list (map f [0..b])"
proof -
  have "[0..b] = [0..a] @ [a + 1..b]" using assms by (intro upto_split2) simp_all
  then show ?thesis by simp
qed

lemma suffix_sum_mono:
  fixes f :: "int \<Rightarrow> nat"
  assumes "a \<le> b" "b \<le> c"
  shows "sum_list (map f [b..c]) \<le> sum_list (map f [a..c])"
proof -
  have "[a..c] = [a..b - 1] @ [b..c]" using assms by (intro upto_split1) simp_all
  then show ?thesis by simp
qed

lemma scan_up_eqI:
  assumes len: "limit \<le> int (length freq)" and r: "0 \<le> r" "r \<le> limit"
    and below: "0 < r \<Longrightarrow>
       \<not> f32_gt (f32_of_size (sum_list (map (\<lambda>i. freq ! nat i) [0..r - 1]))) nb"
    and at: "r < limit \<Longrightarrow>
       f32_gt (f32_of_size (sum_list (map (\<lambda>i. freq ! nat i) [0..r]))) nb"
  shows "scan_up limit nb freq 0 0 = Inr r"
proof -
  let ?S = "\<lambda>a b. sum_list (map (\<lambda>i. freq ! nat i) [a..b])"
  have "0 \<le> limit" using r by simp
  from scan_up_props[OF _ len this, of nb 0]
  obtain r' where r': "scan_up limit nb freq 0 0 = Inr r'" "0 \<le> r'" "r' \<le> limit"
    "\<And>u. 0 \<le> u \<Longrightarrow> u < r' \<Longrightarrow> \<not> f32_gt (f32_of_size (?S 0 u)) nb"
    "r' < limit \<Longrightarrow> f32_gt (f32_of_size (?S 0 r')) nb"
    by auto
  have "\<not> r' < r"
  proof
    assume lt: "r' < r"
    then have c: "f32_gt (f32_of_size (?S 0 r')) nb" using r'(5) r(2) by simp
    have "?S 0 r' \<le> ?S 0 (r - 1)" using lt r'(2) by (intro prefix_sum_mono) simp_all
    from f32_of_size_gt_mono[OF this c] below lt r'(2) show False by simp
  qed
  moreover have "\<not> r < r'"
  proof
    assume lt: "r < r'"
    then have "\<not> f32_gt (f32_of_size (?S 0 r)) nb" using r'(4)[of r] r(1) by simp
    then show False using at lt r'(3) by simp
  qed
  ultimately show ?thesis using r'(1) by simp
qed

lemma scan_down_eqI:
  assumes len: "length freq = 256" and limit: "- 1 \<le> limit" and r: "limit \<le> r" "r \<le> 255"
    and above: "r < 255 \<Longrightarrow>
       \<not> f32_gt (f32_of_size (sum_list (map (\<lambda>i. freq ! nat i) [r + 1..255]))) nb"
    and at: "limit < r \<Longrightarrow>
       f32_gt (f32_of_size (sum_list (map (\<lambda>i. freq ! nat i) [r..255]))) nb"
  shows "scan_down limit nb freq 0 255 = Inr r"
proof -
  let ?S = "\<lambda>a b. sum_list (map (\<lambda>i. freq ! nat i) [a..b])"
  have "limit \<le> 255" using r by simp
  from scan_down_props[OF _ limit this, of freq nb 0] len
  obtain r' where r': "scan_down limit nb freq 0 255 = Inr r'" "limit \<le> r'" "r' \<le> 255"
    "\<And>u. r' < u \<Longrightarrow> u \<le> 255 \<Longrightarrow> \<not> f32_gt (f32_of_size (?S u 255)) nb"
    "limit < r' \<Longrightarrow> f32_gt (f32_of_size (?S r' 255)) nb"
    by auto
  have "\<not> r < r'"
  proof
    assume lt: "r < r'"
    then have c: "f32_gt (f32_of_size (?S r' 255)) nb" using r'(5) r(1) by simp
    have "?S r' 255 \<le> ?S (r + 1) 255" using lt r'(3) by (intro suffix_sum_mono) simp_all
    from f32_of_size_gt_mono[OF this c] above lt r'(3) show False by simp
  qed
  moreover have "\<not> r' < r"
  proof
    assume lt: "r' < r"
    then have "\<not> f32_gt (f32_of_size (?S r 255)) nb" using r'(4)[of r] r(2) by simp
    then show False using at lt r'(2) by simp
  qed
  ultimately show ?thesis using r'(1) by simp
qed

lemma source_min_scan_eqI:
  assumes len: "length freq = 256" and r: "0 \<le> r" "r \<le> 255"
    and below: "0 < r \<Longrightarrow>
       \<not> f32_gt (f32_of_size (sum_list (map (\<lambda>i. freq ! nat i) [0..r - 1]))) nb"
    and at: "r < 255 \<Longrightarrow>
       f32_gt (f32_of_size (sum_list (map (\<lambda>i. freq ! nat i) [0..r]))) nb"
  shows "source_min_scan nb freq = Inr r"
  unfolding source_min_scan_def
  by (rule scan_up_eqI) (use assms in simp_all)

lemma source_max_scan_eqI:
  assumes len: "length freq = 256" and r: "0 \<le> r" "r \<le> 255"
    and above: "r < 255 \<Longrightarrow>
       \<not> f32_gt (f32_of_size (sum_list (map (\<lambda>i. freq ! nat i) [r + 1..255]))) nb"
    and at: "0 < r \<Longrightarrow>
       f32_gt (f32_of_size (sum_list (map (\<lambda>i. freq ! nat i) [r..255]))) nb"
  shows "source_max_scan nb freq = Inr r"
  unfolding source_max_scan_def
  by (rule scan_down_eqI) (use assms in simp_all)

text \<open>Running sums over the histogram of a buffer count the samples up to a value.\<close>

lemma length_filter_split:
  "(\<And>x. \<not> (P x \<and> Q x)) \<Longrightarrow>
     length (filter (\<lambda>x. P x \<or> Q x) xs) = length (filter P xs) + length (filter Q xs)"
  by (induction xs) auto

lemma nat_eq_unat_iff: "0 \<le> i \<Longrightarrow> unat (x :: sample) = nat i \<longleftrightarrow> uint x = i"
proof -
  assume i: "0 \<le> i"
  have "uint x = i \<longleftrightarrow> int (unat x) = int (nat i)" using i by simp
  also have "\<dots> \<longleftrightarrow> unat x = nat i" by (rule of_nat_eq_iff)
  finally show ?thesis by (rule sym)
qed

lemma prefix_count:
  fixes img :: "sample list"
  assumes "- 1 \<le> u"
  shows "sum_list (map (\<lambda>i. length (filter (\<lambda>x. unat x = nat i) img)) [0..u])
           = length (filter (\<lambda>x. uint x \<le> u) img)"
  using assms
proof (induction "nat (u + 1)" arbitrary: u)
  case 0
  then have "u = - 1" by simp
  moreover have "filter (\<lambda>x. uint x \<le> - 1) img = []"
  proof -
    have "\<not> uint x \<le> - 1" for x :: sample using uint_ge_0[of x] by linarith
    then show ?thesis by simp
  qed
  ultimately show ?case by simp
next
  case (Suc n)
  then have u: "0 \<le> u" "n = nat (u - 1 + 1)" "- 1 \<le> u - 1" by simp_all
  have "sum_list (map (\<lambda>i. length (filter (\<lambda>x. unat x = nat i) img)) [0..u])
      = length (filter (\<lambda>x. uint x \<le> u - 1) img)
        + length (filter (\<lambda>x. unat x = nat u) img)"
    using Suc.hyps(1)[OF u(2,3)] u(1) by (simp add: sum_upto_last)
  also have "\<dots> = length (filter (\<lambda>x. uint x \<le> u - 1 \<or> unat x = nat u) img)"
    using u(1) by (intro length_filter_split[symmetric]) (simp add: nat_eq_unat_iff)
  also have "(\<lambda>x::sample. uint x \<le> u - 1 \<or> unat x = nat u) = (\<lambda>x. uint x \<le> u)"
    using u(1) by (auto simp: nat_eq_unat_iff)
  finally show ?case .
qed

lemma suffix_count:
  fixes img :: "sample list"
  assumes "0 \<le> u" "u \<le> 256"
  shows "sum_list (map (\<lambda>i. length (filter (\<lambda>x. unat x = nat i) img)) [u..255])
           = length (filter (\<lambda>x. u \<le> uint x) img)"
  using assms
proof (induction "nat (256 - u)" arbitrary: u)
  case 0
  then have "u = 256" by simp
  moreover have "filter (\<lambda>x. (256::int) \<le> uint x) img = []"
  proof -
    have "\<not> (256::int) \<le> uint x" for x :: sample using uint_bounded[of x] by simp
    then show ?thesis by simp
  qed
  ultimately show ?case by simp
next
  case (Suc n)
  then have u: "u \<le> 255" "n = nat (256 - (u + 1))" "0 \<le> u + 1" "u + 1 \<le> 256" "0 \<le> u"
    by simp_all
  have "sum_list (map (\<lambda>i. length (filter (\<lambda>x. unat x = nat i) img)) [u..255])
      = length (filter (\<lambda>x. unat x = nat u) img)
        + length (filter (\<lambda>x. u + 1 \<le> uint x) img)"
    using Suc.hyps(1)[OF u(2,3,4)] u(1) by (simp add: sum_upto_first)
  also have "\<dots> = length (filter (\<lambda>x. unat x = nat u \<or> u + 1 \<le> uint x) img)"
    using u(5) by (intro length_filter_split[symmetric]) (simp add: nat_eq_unat_iff)
  also have "(\<lambda>x::sample. unat x = nat u \<or> u + 1 \<le> uint x) = (\<lambda>x. u \<le> uint x)"
    using u(5) by (auto simp: nat_eq_unat_iff)
  finally show ?case .
qed

lemma histogram_nth_int:
  assumes "0 < T" "mset order = mset [0..<T]" "0 \<le> i" "i \<le> 255"
  shows "frequencies T order img ! nat i = length (filter (\<lambda>x. unat x = nat i) img)"
  using assms frequencies_props(2)[OF assms(1,2), of "nat i" img] by simp

lemma histogram_prefix:
  assumes "0 < T" "mset order = mset [0..<T]" "- 1 \<le> u" "u \<le> 255"
  shows "sum_list (map (\<lambda>i. frequencies T order img ! nat i) [0..u])
           = length (filter (\<lambda>x. uint x \<le> u) img)"
proof -
  have "map (\<lambda>i. frequencies T order img ! nat i) [0..u]
      = map (\<lambda>i. length (filter (\<lambda>x. unat x = nat i) img)) [0..u]"
    using assms by (intro map_cong refl histogram_nth_int) simp_all
  then show ?thesis by (simp only: prefix_count[OF assms(3), of img])
qed

lemma histogram_suffix:
  assumes "0 < T" "mset order = mset [0..<T]" "0 \<le> u" "u \<le> 256"
  shows "sum_list (map (\<lambda>i. frequencies T order img ! nat i) [u..255])
           = length (filter (\<lambda>x. u \<le> uint x) img)"
proof -
  have "map (\<lambda>i. frequencies T order img ! nat i) [u..255]
      = map (\<lambda>i. length (filter (\<lambda>x. unat x = nat i) img)) [u..255]"
    using assms by (intro map_cong refl histogram_nth_int) simp_all
  then show ?thesis by (simp only: suffix_count[OF assms(3,4), of img])
qed

lemma f32_of_size_small: "n < 2 ^ 24 \<Longrightarrow> f32_of_size n = Finite (of_nat n)"
  using f32_of_int_small[of "int n"] by (simp add: f32_of_size_def f32_of_int_def)

lemma to_f32_small_int: "\<bar>n\<bar> < 2 ^ 24 \<Longrightarrow> to_f32 (of_int n) = Finite (of_int n)"
  using f32_of_int_small[of n] by (simp add: f32_of_int_def)

lemma schedule_single: "mset [0] = mset [0..<(1::nat)]"
  by simp

text \<open>
  C2 (as the program has it). On a histogram of 256 bins both loops of
  \<^verbatim>\<open>autocontrast.cpp\<close> read inside the array and end with values between 0 and 255, for
  every threshold, infinite or NaN included. When even the total count does not exceed
  the threshold, \<open>source_min\<close> ends at 255 and \<open>source_max\<close> at 0. The order
  \<open>source_min \<le> source_max\<close> is guaranteed when half of the total count, rounded up,
  exceeds the threshold.
\<close>

theorem borders_in_range:
  assumes "length freq = 256"
  shows "\<exists>source_min source_max.
      source_min_scan nb freq = Inr source_min \<and> source_max_scan nb freq = Inr source_max
      \<and> 0 \<le> source_min \<and> source_min \<le> 255 \<and> 0 \<le> source_max \<and> source_max \<le> 255
      \<and> (\<not> f32_gt (f32_of_size (sum_list freq)) nb \<longrightarrow> source_min = 255 \<and> source_max = 0)
      \<and> (f32_gt (f32_of_size ((sum_list freq + 1) div 2)) nb \<longrightarrow> source_min \<le> source_max)"
proof -
  let ?S = "\<lambda>a b. sum_list (map (\<lambda>i. freq ! nat i) [a..b])"
  from source_min_scan_props[OF assms, of nb]
  obtain lo where lo: "source_min_scan nb freq = Inr lo" "0 \<le> lo" "lo \<le> 255"
    "lo < 255 \<Longrightarrow> f32_gt (f32_of_size (?S 0 lo)) nb"
    by blast
  from source_max_scan_props[OF assms, of nb]
  obtain hi where hi: "source_max_scan nb freq = Inr hi" "0 \<le> hi" "hi \<le> 255"
    "0 < hi \<Longrightarrow> f32_gt (f32_of_size (?S hi 255)) nb"
    by blast
  have total: "?S 0 255 = sum_list freq" by (rule sum_list_all_bins[OF assms])
  have clamp: "lo = 255 \<and> hi = 0" if never: "\<not> f32_gt (f32_of_size (sum_list freq)) nb"
  proof -
    have "\<not> lo < 255"
    proof
      assume l: "lo < 255"
      have "?S 0 lo \<le> ?S 0 255" using lo(2,3) by (intro prefix_sum_mono) simp_all
      from f32_of_size_gt_mono[OF this lo(4)[OF l]] never total show False by simp
    qed
    moreover have "\<not> 0 < hi"
    proof
      assume h: "0 < hi"
      have "?S hi 255 \<le> ?S 0 255" using hi(2,3) by (intro suffix_sum_mono) simp_all
      from f32_of_size_gt_mono[OF this hi(4)[OF h]] never total show False by simp
    qed
    ultimately show ?thesis using lo(3) hi(2) by simp
  qed
  have "lo \<le> hi" if "f32_gt (f32_of_size ((sum_list freq + 1) div 2)) nb"
    using borders_ordered[OF assms lo(1) hi(1) that] .
  then show ?thesis using lo(1,2,3) hi(1,2,3) clamp by blast
qed

lemma needed_quarter_of_four: "needed (Finite (1 / 4)) 4 = Finite 1"
  using f32_of_int_small[of 4] to_f32_small_int[of 1] by (simp add: needed_def)

lemma needed_half_of_four: "needed (Finite (1 / 2)) 4 = Finite 2"
  using f32_of_int_small[of 4] to_f32_small_int[of 2] by (simp add: needed_def)

theorem borders_in_range_witness:
  "(\<exists>source_min source_max.
      source_min_scan (needed (Finite 0) 0) (frequencies 1 [0] []) = Inr source_min
      \<and> source_max_scan (needed (Finite 0) 0) (frequencies 1 [0] []) = Inr source_max
      \<and> source_min = 255 \<and> source_max = 0)
   \<and> (\<exists>source_min source_max.
      source_min_scan (needed (Finite (1 / 4)) 4) (frequencies 1 [0] [10, 10, 250, 250])
        = Inr source_min
      \<and> source_max_scan (needed (Finite (1 / 4)) 4) (frequencies 1 [0] [10, 10, 250, 250])
        = Inr source_max
      \<and> 0 \<le> source_min \<and> source_min \<le> source_max \<and> source_max \<le> 255)"
proof
  have len: "length (frequencies 1 [0] []) = 256"
    by (rule frequencies_props(1)[OF _ schedule_single]) simp
  have "sum_list (frequencies 1 [0] []) = 0"
    using frequencies_sum[OF _ schedule_single, of "[]"] by simp
  then have never: "\<not> f32_gt (f32_of_size (sum_list (frequencies 1 [0] []))) (needed (Finite 0) 0)"
    by (simp add: needed_zero f32_of_size_gt_zero)
  from borders_in_range[OF len, of "needed (Finite 0) 0"] never
  show "\<exists>source_min source_max.
      source_min_scan (needed (Finite 0) 0) (frequencies 1 [0] []) = Inr source_min
      \<and> source_max_scan (needed (Finite 0) 0) (frequencies 1 [0] []) = Inr source_max
      \<and> source_min = 255 \<and> source_max = 0"
    by blast
next
  let ?img = "[10, 10, 250, 250] :: sample list"
  have len: "length (frequencies 1 [0] ?img) = 256"
    by (rule frequencies_props(1)[OF _ schedule_single]) simp
  have "sum_list (frequencies 1 [0] ?img) = 4"
    using frequencies_sum[OF _ schedule_single, of ?img] by simp
  then have half: "f32_gt (f32_of_size ((sum_list (frequencies 1 [0] ?img) + 1) div 2))
      (needed (Finite (1 / 4)) 4)"
    by (simp add: needed_quarter_of_four f32_of_size_small)
  from borders_in_range[OF len, of "needed (Finite (1 / 4)) 4"] half
  show "\<exists>source_min source_max.
      source_min_scan (needed (Finite (1 / 4)) 4) (frequencies 1 [0] ?img) = Inr source_min
      \<and> source_max_scan (needed (Finite (1 / 4)) 4) (frequencies 1 [0] ?img) = Inr source_max
      \<and> 0 \<le> source_min \<and> source_min \<le> source_max \<and> source_max \<le> 255"
    by blast
qed

text \<open>
  The claim as stated fails: for the four samples 10, 10, 250, 250 and the coefficient
  \<open>1/2\<close> the threshold is 2; the upward loop passes the two samples 10 (the sum 2 does not
  exceed 2) and stops at 250, the downward loop stops at 10.
\<close>

theorem borders_crossed_counterexample:
  "source_min_scan (needed (Finite (1 / 2)) 4) (frequencies 1 [0] [10, 10, 250, 250]) = Inr 250
   \<and> source_max_scan (needed (Finite (1 / 2)) 4) (frequencies 1 [0] [10, 10, 250, 250]) = Inr 10
   \<and> \<not> (250 :: int) \<le> 10"
proof -
  let ?img = "[10, 10, 250, 250] :: sample list"
  have len: "length (frequencies 1 [0] ?img) = 256"
    by (rule frequencies_props(1)[OF _ schedule_single]) simp
  have p: "sum_list (map (\<lambda>i. frequencies 1 [0] ?img ! nat i) [0..u])
      = length (filter (\<lambda>x. uint x \<le> u) ?img)" if "- 1 \<le> u" "u \<le> 255" for u
    using that by (intro histogram_prefix[OF _ schedule_single]) simp_all
  have s: "sum_list (map (\<lambda>i. frequencies 1 [0] ?img ! nat i) [u..255])
      = length (filter (\<lambda>x. u \<le> uint x) ?img)" if "0 \<le> u" "u \<le> 256" for u
    using that by (intro histogram_suffix[OF _ schedule_single]) simp_all
  have "source_min_scan (needed (Finite (1 / 2)) 4) (frequencies 1 [0] ?img) = Inr 250"
    apply (rule source_min_scan_eqI[OF len])
    subgoal by simp
    subgoal by simp
    subgoal by (subst p) (simp_all add: needed_half_of_four f32_of_size_small)
    subgoal by (subst p) (simp_all add: needed_half_of_four f32_of_size_small)
    done
  moreover have "source_max_scan (needed (Finite (1 / 2)) 4) (frequencies 1 [0] ?img) = Inr 10"
    apply (rule source_max_scan_eqI[OF len])
    subgoal by simp
    subgoal by simp
    subgoal by (subst s) (simp_all add: needed_half_of_four f32_of_size_small)
    subgoal by (subst s) (simp_all add: needed_half_of_four f32_of_size_small)
    done
  ultimately show ?thesis by simp
qed

section \<open>Coefficient zero\<close>

lemma filter_empty_length: "length (filter P xs) = 0 \<longleftrightarrow> (\<forall>x\<in>set xs. \<not> P x)"
  by (simp add: filter_empty_conv)

lemma zero_coefficient_borders:
  assumes "img \<noteq> []" "0 < T" "mset order = mset [0..<T]"
  shows "source_min_scan (needed (Finite 0) sz) (frequencies T order img)
           = Inr (uint (Min (set img)))
       \<and> source_max_scan (needed (Finite 0) sz) (frequencies T order img)
           = Inr (uint (Max (set img)))"
proof
  let ?freq = "frequencies T order img"
  have len: "length ?freq = 256" by (rule frequencies_props(1)[OF assms(2,3)])
  have fin: "finite (set img)" "set img \<noteq> {}" using assms(1) by simp_all
  let ?lo = "Min (set img)" and ?hi = "Max (set img)"
  have lo: "?lo \<in> set img" "\<And>x. x \<in> set img \<Longrightarrow> ?lo \<le> x"
    using fin by (simp_all add: Min_in)
  have hi: "?hi \<in> set img" "\<And>x. x \<in> set img \<Longrightarrow> x \<le> ?hi"
    using fin by (simp_all add: Max_in)
  show "source_min_scan (needed (Finite 0) sz) ?freq = Inr (uint ?lo)"
  proof (rule source_min_scan_eqI[OF len])
    show "0 \<le> uint ?lo" by simp
    show "uint ?lo \<le> 255" using uint_bounded[of ?lo] by simp
    show "\<not> f32_gt (f32_of_size (sum_list (map (\<lambda>i. ?freq ! nat i) [0..uint ?lo - 1])))
            (needed (Finite 0) sz)"
    proof -
      have "\<not> uint x \<le> uint ?lo - 1" if "x \<in> set img" for x
        using lo(2)[OF that] by (simp add: word_le_def)
      then have "\<forall>x\<in>set img. \<not> uint x \<le> uint ?lo - 1" by blast
      then have "length (filter (\<lambda>x. uint x \<le> uint ?lo - 1) img) = 0"
        by (simp only: filter_empty_length)
      moreover have "uint ?lo - 1 \<le> 255" using uint_bounded[of ?lo] by simp
      ultimately show ?thesis
        using histogram_prefix[OF assms(2,3), of "uint ?lo - 1" img]
        by (simp add: needed_zero f32_of_size_gt_zero)
    qed
    show "f32_gt (f32_of_size (sum_list (map (\<lambda>i. ?freq ! nat i) [0..uint ?lo])))
            (needed (Finite 0) sz)"
    proof -
      have "\<not> (\<forall>x\<in>set img. \<not> uint x \<le> uint ?lo)" using lo(1) by auto
      then have "length (filter (\<lambda>x. uint x \<le> uint ?lo) img) \<noteq> 0"
        using filter_empty_length[of "\<lambda>x. uint x \<le> uint ?lo" img] by blast
      moreover have "uint ?lo \<le> 255" using uint_bounded[of ?lo] by simp
      moreover have "- 1 \<le> uint ?lo" using uint_ge_0[of ?lo] by linarith
      ultimately show ?thesis
        using histogram_prefix[OF assms(2,3), of "uint ?lo" img]
        by (simp add: needed_zero f32_of_size_gt_zero)
    qed
  qed
  show "source_max_scan (needed (Finite 0) sz) ?freq = Inr (uint ?hi)"
  proof (rule source_max_scan_eqI[OF len])
    show "0 \<le> uint ?hi" by simp
    show "uint ?hi \<le> 255" using uint_bounded[of ?hi] by simp
    show "\<not> f32_gt (f32_of_size (sum_list (map (\<lambda>i. ?freq ! nat i) [uint ?hi + 1..255])))
            (needed (Finite 0) sz)"
    proof -
      have "\<not> uint ?hi + 1 \<le> uint x" if "x \<in> set img" for x
        using hi(2)[OF that] by (simp add: word_le_def)
      then have "\<forall>x\<in>set img. \<not> uint ?hi + 1 \<le> uint x" by blast
      then have "length (filter (\<lambda>x. uint ?hi + 1 \<le> uint x) img) = 0"
        by (simp only: filter_empty_length)
      moreover have "uint ?hi + 1 \<le> 256" using uint_bounded[of ?hi] by simp
      ultimately show ?thesis
        using histogram_suffix[OF assms(2,3), of "uint ?hi + 1" img]
        by (simp add: needed_zero f32_of_size_gt_zero)
    qed
    show "f32_gt (f32_of_size (sum_list (map (\<lambda>i. ?freq ! nat i) [uint ?hi..255])))
            (needed (Finite 0) sz)"
    proof -
      have "\<not> (\<forall>x\<in>set img. \<not> uint ?hi \<le> uint x)" using hi(1) by auto
      then have "length (filter (\<lambda>x. uint ?hi \<le> uint x) img) \<noteq> 0"
        using filter_empty_length[of "\<lambda>x. uint ?hi \<le> uint x" img] by blast
      moreover have "uint ?hi \<le> 256" using uint_bounded[of ?hi] by simp
      ultimately show ?thesis
        using histogram_suffix[OF assms(2,3), of "uint ?hi" img]
        by (simp add: needed_zero f32_of_size_gt_zero)
    qed
  qed
qed

section \<open>The table\<close>

lemma fold_update_upt:
  "n \<le> length m \<Longrightarrow>
     length (fold (\<lambda>i m. m[i := g i]) [0..<n] m) = length m
     \<and> (\<forall>k<length m. fold (\<lambda>i m. m[i := g i]) [0..<n] m ! k = (if k < n then g k else m ! k))"
proof (induction n)
  case 0
  show ?case by simp
next
  case (Suc n)
  then show ?case by (auto simp: nth_list_update less_Suc_eq)
qed

lemma fill_mapping_Inr:
  "(\<And>i. i \<in> set idx \<Longrightarrow> entry (int i) = Inr (g i)) \<Longrightarrow>
     fill_mapping entry idx m = Inr (fold (\<lambda>i m. m[i := g i]) idx m)"
  by (induction idx arbitrary: m) simp_all

lemma fill_mapping_table:
  assumes "\<And>i. i < 256 \<Longrightarrow> entry (int i) = Inr (g i)"
  shows "fill_mapping entry [0..<256] (replicate 256 0) = Inr (map g [0..<256])"
proof -
  have "fill_mapping entry [0..<256] (replicate 256 0)
      = Inr (fold (\<lambda>i m. m[i := g i]) [0..<256] (replicate 256 0))"
    using assms by (intro fill_mapping_Inr) simp
  moreover have "fold (\<lambda>i m. m[i := g i]) [0..<256] (replicate 256 0) = map g [0..<256]"
    using fold_update_upt[of 256 "replicate 256 0" g] by (intro nth_equalityI) simp_all
  ultimately show ?thesis by simp
qed

lemma binade_below:
  assumes "0 < x" "x < 2 powi k" "- 125 \<le> k"
  shows "binade x \<le> k - 1"
proof -
  have "2 powi (floor_log2 x) \<le> x" using floor_log2_bounds[OF assms(1)] by simp
  then have "(2::rat) powi (floor_log2 x) < 2 powi k" using assms(2) by linarith
  then have "floor_log2 x < k" by (rule powi2_less_imp)
  then show ?thesis using assms(1,3) by (simp add: binade_def)
qed

lemma round_error_below_256:
  assumes "0 < x" "x < 256"
  shows "\<bar>round_binary32 x - x\<bar> \<le> 1 / 131072"
proof -
  have "x < 2 powi 8" using assms(2) by simp
  then have "binade x \<le> 7" using binade_below[OF assms(1), of 8] by simp
  then have "(2::rat) powi (binade x - 24) \<le> 2 powi (- 17)"
    by (intro power_int_increasing) simp_all
  also have "(2::rat) powi (- 17) = 1 / 131072" by (simp add: power_int_minus_divide)
  finally show ?thesis using round_binary32_error[OF assms(1)] by linarith
qed

lemma round_away_nonneg: "0 \<le> x \<Longrightarrow> round_away x = \<lfloor>x + 1 / 2\<rfloor>"
  by (simp add: round_away_def)

lemma trunc_rat_of_int: "trunc_rat (of_int n) = n"
  by (simp add: trunc_rat_def)

text \<open>The scale factor for borders \<open>d\<close> apart, \<open>1 \<le> d \<le> 255\<close>.\<close>

lemma tmp_props:
  assumes d: "1 \<le> d" "d \<le> 255"
  shows "f32_div (Finite 255) (f32_of_int d) = Finite (round_binary32 (255 / of_int d))"
    and "0 \<le> round_binary32 (255 / of_int d)"
    and "round_binary32 (255 / of_int d) \<le> 256"
    and "\<bar>round_binary32 (255 / of_int d) * of_int d - 255\<bar> \<le> 255 / 131072"
proof -
  let ?x = "255 / of_int d :: rat"
  have dr: "(1::rat) \<le> of_int d" "(of_int d :: rat) \<le> 255" using d by simp_all
  have x: "0 < ?x" "?x \<le> 255" using dr by (simp_all add: field_simps)
  have fd: "f32_of_int d = Finite (of_int d)" using d by (intro f32_of_int_small) simp
  have "\<bar>?x\<bar> < 2 powi 127" using x by simp
  then have "to_f32 ?x = Finite (round_binary32 ?x)" by (rule to_f32_finite)
  then show "f32_div (Finite 255) (f32_of_int d) = Finite (round_binary32 ?x)"
    using fd dr by simp
  show "0 \<le> round_binary32 ?x" using x by (intro round_binary32_nonneg) simp
  have "?x < 2 powi 8" using x by simp
  then have "round_binary32 ?x \<le> 2 powi 8"
    using x by (intro round_binary32_below_power) simp_all
  then show "round_binary32 ?x \<le> 256" by simp
  have e: "\<bar>round_binary32 ?x - ?x\<bar> \<le> 1 / 131072"
    using x by (intro round_error_below_256) simp_all
  have "round_binary32 ?x * of_int d - 255 = (round_binary32 ?x - ?x) * of_int d"
    using dr by (simp add: field_simps)
  then have "\<bar>round_binary32 ?x * of_int d - 255\<bar> = \<bar>round_binary32 ?x - ?x\<bar> * of_int d"
    using dr by (simp add: abs_mult)
  also have "\<dots> \<le> 1 / 131072 * 255"
    using e dr by (intro mult_mono) simp_all
  finally show "\<bar>round_binary32 ?x * of_int d - 255\<bar> \<le> 255 / 131072" by simp
qed

text \<open>One entry of the table of \<^verbatim>\<open>autocontrast.cpp\<close>, for a scale factor up to 256.\<close>

lemma mapping_entry_value:
  assumes t: "0 \<le> t" "t \<le> 256" and k: "max 0 (i - source_min) \<le> 255"
  shows "mapping_entry (Finite t) source_min i
           = Inr (word_of_int (min 255
                   (round_away (round_binary32 (t * of_int (max 0 (i - source_min)))))))"
proof -
  let ?k = "max 0 (i - source_min)"
  let ?y = "round_binary32 (t * of_int ?k)"
  have k0: "0 \<le> ?k" by simp
  have kr: "(0::rat) \<le> of_int ?k" "(of_int ?k :: rat) \<le> 255" using k by simp_all
  have fk: "f32_of_int ?k = Finite (of_int ?k)" using k k0 by (intro f32_of_int_small) simp
  have p: "0 \<le> t * of_int ?k" using t kr by simp
  have "t * of_int ?k \<le> 256 * 255" using t kr by (intro mult_mono) simp_all
  then have lt: "t * of_int ?k < 2 powi 16" by simp
  then have "\<bar>t * of_int ?k\<bar> < 2 powi 127" using p by simp
  then have m: "f32_mul (Finite t) (f32_of_int ?k) = Finite ?y"
    using fk by (simp add: to_f32_finite)
  have y0: "0 \<le> ?y" using p by (rule round_binary32_nonneg)
  have "?y \<le> 2 powi 16" using p lt by (intro round_binary32_below_power) simp_all
  then have y1: "?y \<le> 65536" by simp
  have r0: "0 \<le> round_away ?y" using y0 by (simp add: round_away_nonneg)
  have "?y + 1 / 2 < 65537" using y1 by simp
  then have "\<lfloor>?y + 1 / 2\<rfloor> < 65537" by (simp add: floor_less_iff)
  then have r1: "round_away ?y < 65537" using y0 by (simp add: round_away_nonneg)
  show ?thesis
    unfolding mapping_entry_def m using r0 r1 by (simp add: trunc_rat_of_int)
qed

lemma scaled_zero: "round_away (round_binary32 (t * of_int 0)) = 0"
  by (simp add: round_binary32_def round_away_def floor_eq_iff)

lemma scaled_mono:
  assumes "0 \<le> t" "0 \<le> j" "j \<le> k"
  shows "round_away (round_binary32 (t * of_int j)) \<le> round_away (round_binary32 (t * of_int k))"
proof -
  have "t * of_int j \<le> t * of_int k" using assms by (intro mult_left_mono) simp_all
  moreover have "0 \<le> t * of_int j" using assms by simp
  ultimately have "round_binary32 (t * of_int j) \<le> round_binary32 (t * of_int k)"
    by (intro round_binary32_mono)
  moreover have "0 \<le> round_binary32 (t * of_int j)"
    using \<open>0 \<le> t * of_int j\<close> by (rule round_binary32_nonneg)
  ultimately show ?thesis by (simp add: round_away_nonneg floor_mono)
qed

lemma scaled_full:
  assumes d: "1 \<le> d" "d \<le> 255"
  shows "round_away (round_binary32 (round_binary32 (255 / of_int d) * of_int d)) = 255"
proof -
  let ?t = "round_binary32 (255 / of_int d)"
  let ?p = "?t * of_int d"
  have e: "\<bar>?p - 255\<bar> \<le> 255 / 131072" by (rule tmp_props(4)[OF d])
  then have p: "0 < ?p" "?p < 256" by linarith+
  have "\<bar>round_binary32 ?p - ?p\<bar> \<le> 1 / 131072" by (rule round_error_below_256[OF p])
  then have "\<bar>round_binary32 ?p - 255\<bar> \<le> 256 / 131072" using e by linarith
  then have b: "255 \<le> round_binary32 ?p + 1 / 2" "round_binary32 ?p + 1 / 2 < 256"
    by linarith+
  then have "\<lfloor>round_binary32 ?p + 1 / 2\<rfloor> = 255" by (simp add: floor_eq_iff)
  moreover have "0 \<le> round_binary32 ?p" using b by simp
  ultimately show ?thesis by (simp add: round_away_nonneg)
qed

lemma sample_of_int_le:
  "0 \<le> a \<Longrightarrow> a \<le> b \<Longrightarrow> b \<le> 255 \<Longrightarrow> (word_of_int a :: sample) \<le> word_of_int b"
  by (simp add: word_le_def uint_word_of_int_eq take_bit_int_eq_self)

text \<open>
  The table of \<^verbatim>\<open>autocontrast.cpp\<close> for \<open>0 \<le> source_min < source_max \<le> 255\<close>: no
  conversion is undefined, the entries up to \<open>source_min\<close> are 0, those from \<open>source_max\<close>
  on are 255, and the entries never decrease.
\<close>

lemma build_mapping_stretch:
  assumes "0 \<le> source_min" "source_min < source_max" "source_max \<le> 255"
  shows "\<exists>mapping. build_mapping source_min source_max = Inr mapping \<and> length mapping = 256
      \<and> mapping ! nat source_min = 0 \<and> mapping ! nat source_max = 255
      \<and> (\<forall>i<256. int i \<le> source_min \<longrightarrow> mapping ! i = 0)
      \<and> (\<forall>i<256. source_max \<le> int i \<longrightarrow> mapping ! i = 255)
      \<and> (\<forall>i j. i \<le> j \<and> j < 256 \<longrightarrow> mapping ! i \<le> mapping ! j)"
proof -
  let ?d = "source_max - source_min"
  let ?t = "round_binary32 (255 / of_int ?d)"
  let ?e = "\<lambda>k. min 255 (round_away (round_binary32 (?t * of_int k)))"
  let ?g = "\<lambda>i. word_of_int (?e (max 0 (int i - source_min))) :: sample"
  have d: "1 \<le> ?d" "?d \<le> 255" using assms by simp_all
  note t = tmp_props[OF d]
  have entry: "mapping_entry (Finite ?t) source_min (int i) = Inr (?g i)" if "i < 256" for i
    using that assms by (intro mapping_entry_value t(2,3)) simp
  have build: "build_mapping source_min source_max = Inr (map ?g [0..<256])"
    unfolding build_mapping_def Let_def t(1) by (rule fill_mapping_table) (rule entry)
  have e0: "?e 0 = 0" using scaled_zero[of ?t] by simp
  have emono: "?e j \<le> ?e k" if "0 \<le> j" "j \<le> k" for j k
    using scaled_mono[OF t(2) that] by simp
  have ed: "?e ?d = 255" using scaled_full[OF d] by simp
  have enonneg: "0 \<le> ?e k" if "0 \<le> k" for k using emono[of 0 k] that e0 by simp
  have etop: "?e k = 255" if "?d \<le> k" for k
  proof -
    have "?e ?d \<le> ?e k" using that d by (intro emono) simp_all
    then show ?thesis using ed by simp
  qed
  have low: "?g i = 0" if "int i \<le> source_min" for i
  proof -
    have "max 0 (int i - source_min) = 0" using that by simp
    then show ?thesis using e0 by simp
  qed
  have high: "?g i = 255" if "source_max \<le> int i" for i
  proof -
    have "?d \<le> max 0 (int i - source_min)" using that by simp
    then show ?thesis using etop by simp
  qed
  have mono: "?g i \<le> ?g j" if "i \<le> j" for i j
  proof (rule sample_of_int_le)
    show "0 \<le> ?e (max 0 (int i - source_min))" by (rule enonneg) simp
    show "?e (max 0 (int i - source_min)) \<le> ?e (max 0 (int j - source_min))"
      using that by (intro emono) simp_all
    show "?e (max 0 (int j - source_min)) \<le> 255" by simp
  qed
  have n: "nat source_min < 256" "nat source_max < 256" "int (nat source_min) = source_min"
    "int (nat source_max) = source_max"
    using assms by simp_all
  have "map ?g [0..<256] ! nat source_min = 0" using low[of "nat source_min"] n by simp
  moreover have "map ?g [0..<256] ! nat source_max = 255" using high[of "nat source_max"] n by simp
  moreover have "\<forall>i<256. int i \<le> source_min \<longrightarrow> map ?g [0..<256] ! i = 0"
    using low by simp
  moreover have "\<forall>i<256. source_max \<le> int i \<longrightarrow> map ?g [0..<256] ! i = 255"
    using high by simp
  moreover have "\<forall>i j. i \<le> j \<and> j < 256 \<longrightarrow> map ?g [0..<256] ! i \<le> map ?g [0..<256] ! j"
    using mono by simp
  ultimately show ?thesis using build by simp
qed

text \<open>
  The table of \<^verbatim>\<open>image.cpp\<close> for the same borders: the product is cut at 255 and
  truncated.
\<close>

lemma mapping_entry_image_value:
  assumes t: "0 \<le> t" "t \<le> 256" and s: "0 \<le> source_min" "source_min \<le> 255"
    and i: "0 \<le> i" "i \<le> 255"
  shows "mapping_entry_image (Finite t) (f32_of_int source_min) i
           = Inr (word_of_int
                   \<lfloor>min 255 (round_binary32 (of_int (max 0 (i - source_min)) * t))\<rfloor>)"
proof -
  let ?k = "max 0 (i - source_min)"
  let ?y = "round_binary32 (of_int ?k * t)"
  have fs: "f32_of_int source_min = Finite (of_int source_min)"
    using s by (intro f32_of_int_small) simp
  have fi: "f32_of_int i = Finite (of_int i)" using i by (intro f32_of_int_small) simp
  have "to_f32 (of_int (i - source_min)) = Finite (of_int (i - source_min))"
    using s i by (intro to_f32_small_int) simp
  then have sub: "f32_sub (f32_of_int i) (f32_of_int source_min) = Finite (of_int (i - source_min))"
    by (simp add: fs fi)
  have mx: "f32_max (Finite 0) (Finite (of_int (i - source_min))) = Finite (of_int ?k)"
    by (simp add: f32_max_def max_def)
  have kr: "(0::rat) \<le> of_int ?k" "(of_int ?k :: rat) \<le> 255" using s i by simp_all
  have p: "0 \<le> of_int ?k * t" using t kr by simp
  have "of_int ?k * t \<le> 255 * 256" using t kr by (intro mult_mono) simp_all
  then have lt: "of_int ?k * t < 2 powi 16" by simp
  then have "\<bar>of_int ?k * t\<bar> < 2 powi 127" using p by simp
  then have m: "f32_mul (Finite (of_int ?k)) (Finite t) = Finite ?y"
    by (simp add: to_f32_finite)
  have y0: "0 \<le> ?y" using p by (rule round_binary32_nonneg)
  have mn: "f32_min (Finite 255) (Finite ?y) = Finite (min 255 ?y)"
    by (simp add: f32_min_def min_def)
  have "0 \<le> \<lfloor>min 255 ?y\<rfloor>" "\<lfloor>min 255 ?y\<rfloor> < 256"
    using y0 by (simp_all add: floor_less_iff min_def)
  then show ?thesis
    unfolding mapping_entry_image_def sub mx m mn using y0
    by (simp add: trunc_rat_def)
qed

lemma build_mapping_image_table:
  assumes "0 \<le> source_min" "source_min < source_max" "source_max \<le> 255"
  shows "build_mapping_image source_min source_max
           = Inr (map (\<lambda>i. word_of_int
                   \<lfloor>min 255 (round_binary32 (of_int (max 0 (int i - source_min))
                      * round_binary32 (255 / of_int (source_max - source_min))))\<rfloor>) [0..<256])"
proof -
  have d: "1 \<le> source_max - source_min" "source_max - source_min \<le> 255" using assms by simp_all
  note t = tmp_props[OF d]
  show ?thesis
    unfolding build_mapping_image_def Let_def t(1)
    using assms by (intro fill_mapping_table mapping_entry_image_value t(2,3)) simp_all
qed

lemma seven_sevenths: "\<lfloor>min 255 (round_binary32 (7 * round_binary32 (255 / 7)))\<rfloor> = 254"
  by code_simp

text \<open>
  C7. The table of \<^verbatim>\<open>autocontrast.cpp\<close> has the stated properties
  (\<open>build_mapping_stretch\<close>). \<^verbatim>\<open>image.cpp\<close> truncates instead of rounding: for the borders
  0 and 7 the scale factor is the binary32 value of \<open>255/7\<close>, its product with 7 rounds to
  the binary32 value just below 255, and the entry of \<open>source_max\<close> is 254.
\<close>

theorem build_mapping_image_truncates:
  "(\<exists>mapping. build_mapping_image 0 7 = Inr mapping \<and> mapping ! 7 = 254)
   \<and> (\<exists>mapping. build_mapping 0 7 = Inr mapping \<and> mapping ! 7 = 255)"
proof
  show "\<exists>mapping. build_mapping 0 7 = Inr mapping \<and> mapping ! 7 = 255"
    using build_mapping_stretch[of 0 7] by auto
next
  have "build_mapping_image 0 7 = Inr (map (\<lambda>i. word_of_int
      \<lfloor>min 255 (round_binary32 (of_int (max 0 (int i - 0))
         * round_binary32 (255 / of_int (7 - 0))))\<rfloor>) [0..<256])"
    by (rule build_mapping_image_table) simp_all
  moreover have "(word_of_int \<lfloor>min 255 (round_binary32 (of_int (max 0 (int 7 - 0))
         * round_binary32 (255 / of_int (7 - 0))))\<rfloor> :: sample) = 254"
    using seven_sevenths by simp
  ultimately show "\<exists>mapping. build_mapping_image 0 7 = Inr mapping \<and> mapping ! 7 = 254"
    by simp
qed

section \<open>The identity table\<close>

lemma build_mapping_identity: "build_mapping 0 255 = Inr (map of_nat [0..<256])"
proof -
  have d: "(1::int) \<le> 255 - 0" "(255::int) - 0 \<le> 255" by simp_all
  have one: "round_binary32 (255 / of_int (255 - 0)) = 1"
    using round_binary32_of_int[of 1] by simp
  have tmp: "f32_div (Finite 255) (f32_of_int (255 - 0)) = Finite 1"
    using tmp_props(1)[OF d] one by simp
  have entry: "mapping_entry (Finite 1) 0 (int i) = Inr (of_nat i)" if "i < 256" for i
  proof -
    have r: "round_binary32 (of_int (int i)) = of_int (int i)"
    proof (cases "i = 0")
      case True
      then show ?thesis by (simp add: round_binary32_def)
    next
      case False
      then show ?thesis using that by (intro round_binary32_of_int) simp_all
    qed
    have "\<lfloor>(1::rat) / 2\<rfloor> = 0" by (simp add: floor_eq_iff)
    then have "round_away (of_int (int i)) = int i" by (simp add: round_away_def)
    then have "min 255 (round_away (round_binary32 (1 * of_int (max 0 (int i - 0))))) = int i"
      using r that by simp
    moreover have "mapping_entry (Finite 1) 0 (int i)
        = Inr (word_of_int (min 255
            (round_away (round_binary32 (1 * of_int (max 0 (int i - 0)))))))"
      using that by (intro mapping_entry_value) simp_all
    ultimately show ?thesis by simp
  qed
  show ?thesis
    unfolding build_mapping_def Let_def tmp by (rule fill_mapping_table) (rule entry)
qed

text \<open>
  C9. The borders 0 and 255 give the identity table, and applying it, in any order of the
  iterations, leaves every sample as it was.
\<close>

theorem identity_table_roundtrip:
  assumes "mset order = mset [0..<length img]"
  shows "\<exists>mapping. build_mapping 0 255 = Inr mapping \<and> apply_in_order mapping order img = img"
proof -
  have "map of_nat [0..<256] ! unat x = x" for x :: sample
  proof -
    have "unat x < 256" using unsigned_less[of x] by simp
    then have "map of_nat [0..<256] ! unat x = (of_nat (unat x) :: sample)" by simp
    then show ?thesis by simp
  qed
  then have "apply_in_order (map of_nat [0..<256]) order img = img"
    by (simp add: apply_in_order_eq[OF assms] map_idI)
  then show ?thesis using build_mapping_identity by simp
qed

theorem identity_table_roundtrip_witness:
  "mset [2, 0, 1] = mset [0..<length [10, 200, 30 :: sample]]
   \<and> (\<exists>mapping. build_mapping 0 255 = Inr mapping
         \<and> apply_in_order mapping [2, 0, 1] [10, 200, 30] = [10, 200, 30])"
proof -
  have o: "mset [2, 0, 1] = mset [0..<length [10, 200, 30 :: sample]]" by (simp add: upt_rec)
  show ?thesis using identity_table_roundtrip[OF o] o by simp
qed

section \<open>The whole pass\<close>

lemma process_zero_coefficient:
  assumes "img \<noteq> []" "0 < T" "mset order = mset [0..<T]"
  shows "process T order (Finite 0) sz img
           = (case build_mapping (uint (Min (set img))) (uint (Max (set img))) of
                Inl e \<Rightarrow> Inl e
              | Inr mapping \<Rightarrow> Inr (map (\<lambda>x. mapping ! unat x) img))"
  using zero_coefficient_borders[OF assms, of sz]
  by (simp add: process_def Let_def apply_mapping_eq split: sum.splits)

text \<open>
  C1. With \<open>source_max = source_min\<close> the table builder of \<^verbatim>\<open>autocontrast.cpp\<close> divides
  255 by zero: \<open>tmp\<close> is infinite, the product for the first entry is a NaN or an
  infinity, and its conversion to \<^verbatim>\<open>int\<close> is undefined. No table is produced. An image
  of four samples 7 with the coefficient 0 reaches this case.
\<close>

theorem equal_borders_undefined:
  "build_mapping source_min source_min = Inl UndefinedConversion
   \<and> process 1 [0] (Finite 0) 4 [7, 7, 7, 7] = Inl UndefinedConversion"
proof -
  have "Min (set [7, 7, 7, 7 :: sample]) = 7" "Max (set [7, 7, 7, 7 :: sample]) = 7"
    by simp_all
  then have "process 1 [0] (Finite 0) 4 [7, 7, 7, 7] = Inl UndefinedConversion"
    using process_zero_coefficient[OF _ _ schedule_single, of "[7, 7, 7, 7]" 4]
    by (simp add: build_mapping_equal_borders)
  then show ?thesis by (simp add: build_mapping_equal_borders)
qed

text \<open>
  With full teams, the histogram and the result of the whole pass (the output buffer,
  or the undefined conversion) are the same for any two thread counts and any two orders
  in which the threads pass the critical section.
\<close>

lemma full_team_invariance:
  assumes "0 < T1" "mset order1 = mset [0..<T1]" "0 < T2" "mset order2 = mset [0..<T2]"
  shows "frequencies T1 order1 img = frequencies T2 order2 img
       \<and> process T1 order1 coeff sz img = process T2 order2 coeff sz img"
proof -
  have "frequencies T1 order1 img = frequencies T2 order2 img"
    by (simp only: frequencies_eq[OF assms(1,2)] frequencies_eq[OF assms(3,4)])
  then show ?thesis by (simp add: process_def)
qed



section \<open>Running the pass twice\<close>





section \<open>The command line\<close>

text \<open>
  C8 (as the program has it). \<^verbatim>\<open>main\<close> of \<^verbatim>\<open>autocontrast.cpp\<close> prints a diagnostic and
  returns 1 when it has one to three arguments, and when the thread count or the
  coefficient does not parse or has trailing characters. When the input file cannot be
  opened or its header is not recognized, \<^verbatim>\<open>handle_image\<close> prints a diagnostic and
  returns, and the exit status is 0. Without arguments the built-in list of images is
  processed, one call of \<^verbatim>\<open>handle_image\<close> after the other, and the exit status is 0.
\<close>

theorem command_line_errors:
  "(1 < length argv \<and> length argv < 5 \<longrightarrow> main w argv = ([TooFewArguments], 1))
   \<and> (5 \<le> length argv \<and> extract_int w (argv ! 1) = Failed
        \<longrightarrow> main w argv = ([InvalidNumber (argv ! 1)], 1))
   \<and> (5 \<le> length argv \<and> extract_int w (argv ! 1) = Extracted t False
        \<longrightarrow> main w argv = ([TrailingCharacters (argv ! 1)], 1))
   \<and> (5 \<le> length argv \<and> extract_int w (argv ! 1) = Extracted t True
        \<and> extract_float w (argv ! 4) = Failed
        \<longrightarrow> main w argv = ([InvalidNumber (argv ! 4)], 1))
   \<and> (5 \<le> length argv \<and> extract_int w (argv ! 1) = Extracted t True
        \<and> extract_float w (argv ! 4) = Extracted c False
        \<longrightarrow> main w argv = ([TrailingCharacters (argv ! 4)], 1))
   \<and> (5 \<le> length argv \<and> extract_int w (argv ! 1) = Extracted t True
        \<and> extract_float w (argv ! 4) = Extracted c True
        \<and> fopen_header w (argv ! 2) = None
        \<longrightarrow> main w argv = ([ErrorReadingInputFile], 0))
   \<and> (5 \<le> length argv \<and> extract_int w (argv ! 1) = Extracted t True
        \<and> extract_float w (argv ! 4) = Extracted c True
        \<and> fopen_header w (argv ! 2) = Some None
        \<longrightarrow> main w argv = ([NotRecognized], 0))
   \<and> (5 \<le> length argv \<and> extract_int w (argv ! 1) = Extracted t True
        \<and> extract_float w (argv ! 4) = Extracted c True
        \<and> fopen_header w (argv ! 2) = Some (Some (c1, c2, width, height, color_space))
        \<and> (c1 \<noteq> CHR ''P'' \<or> (c2 \<noteq> CHR ''5'' \<and> c2 \<noteq> CHR ''6''))
        \<longrightarrow> main w argv = ([MagicNotFound], 0))
   \<and> (length argv \<le> 1
        \<longrightarrow> main w argv
            = (NoArguments #
                 concat (map (\<lambda>(input_path, output_path, coeff).
                                handle_image w (max_threads w) input_path output_path coeff)
                           debug_runs), 0))"
  by (intro conjI impI) (simp_all add: main_def, simp_all add: handle_image_def)

theorem command_line_errors_witness:
  "main example_world [''autocontrast'', ''4''] = ([TooFewArguments], 1)
   \<and> main example_world [''autocontrast'', ''four'', ''in.pnm'', ''out.pnm'', ''0.5'']
        = ([InvalidNumber ''four''], 1)
   \<and> main example_world [''autocontrast'', ''4x'', ''in.pnm'', ''out.pnm'', ''0.5'']
        = ([TrailingCharacters ''4x''], 1)
   \<and> main example_world [''autocontrast'', ''4'', ''in.pnm'', ''out.pnm'', ''half'']
        = ([InvalidNumber ''half''], 1)
   \<and> main example_world [''autocontrast'', ''4'', ''in.pnm'', ''out.pnm'', ''0.5x'']
        = ([TrailingCharacters ''0.5x''], 1)
   \<and> main example_world [''autocontrast'', ''4'', ''none.pnm'', ''out.pnm'', ''0.5'']
        = ([ErrorReadingInputFile], 0)
   \<and> main example_world [''autocontrast'', ''4'', ''junk.pnm'', ''out.pnm'', ''0.5'']
        = ([NotRecognized], 0)
   \<and> main example_world [''autocontrast'', ''4'', ''p4.pnm'', ''out.pnm'', ''0.5'']
        = ([MagicNotFound], 0)
   \<and> main example_world [''autocontrast'']
        = (NoArguments # replicate 15 ErrorReadingInputFile, 0)"
proof -
  note c = command_line_errors[where w = example_world and t = 4 and c = "Finite (1 / 2)"
      and ?c1.0 = "CHR ''P''" and ?c2.0 = "CHR ''4''" and width = 2 and height = 2
      and color_space = 255]
  have "main example_world [''autocontrast'', ''4''] = ([TooFewArguments], 1)"
    using c[of "[''autocontrast'', ''4'']"] by simp
  moreover have "main example_world [''autocontrast'', ''four'', ''in.pnm'', ''out.pnm'', ''0.5'']
      = ([InvalidNumber ''four''], 1)"
    using c[of "[''autocontrast'', ''four'', ''in.pnm'', ''out.pnm'', ''0.5'']"]
    by (simp add: example_world_def)
  moreover have "main example_world [''autocontrast'', ''4x'', ''in.pnm'', ''out.pnm'', ''0.5'']
      = ([TrailingCharacters ''4x''], 1)"
    using c[of "[''autocontrast'', ''4x'', ''in.pnm'', ''out.pnm'', ''0.5'']"]
    by (simp add: example_world_def)
  moreover have "main example_world [''autocontrast'', ''4'', ''in.pnm'', ''out.pnm'', ''half'']
      = ([InvalidNumber ''half''], 1)"
    using c[of "[''autocontrast'', ''4'', ''in.pnm'', ''out.pnm'', ''half'']"]
    by (simp add: example_world_def)
  moreover have "main example_world [''autocontrast'', ''4'', ''in.pnm'', ''out.pnm'', ''0.5x'']
      = ([TrailingCharacters ''0.5x''], 1)"
    using c[of "[''autocontrast'', ''4'', ''in.pnm'', ''out.pnm'', ''0.5x'']"]
    by (simp add: example_world_def)
  moreover have "main example_world [''autocontrast'', ''4'', ''none.pnm'', ''out.pnm'', ''0.5'']
      = ([ErrorReadingInputFile], 0)"
    using c[of "[''autocontrast'', ''4'', ''none.pnm'', ''out.pnm'', ''0.5'']"]
    by (simp add: example_world_def)
  moreover have "main example_world [''autocontrast'', ''4'', ''junk.pnm'', ''out.pnm'', ''0.5'']
      = ([NotRecognized], 0)"
    using c[of "[''autocontrast'', ''4'', ''junk.pnm'', ''out.pnm'', ''0.5'']"]
    by (simp add: example_world_def)
  moreover have "main example_world [''autocontrast'', ''4'', ''p4.pnm'', ''out.pnm'', ''0.5'']
      = ([MagicNotFound], 0)"
    using c[of "[''autocontrast'', ''4'', ''p4.pnm'', ''out.pnm'', ''0.5'']"]
    by (simp add: example_world_def)
  moreover have "main example_world [''autocontrast'']
      = (NoArguments # replicate 15 ErrorReadingInputFile, 0)"
  proof -
    have "replicate 15 ErrorReadingInputFile
        = [ErrorReadingInputFile, ErrorReadingInputFile, ErrorReadingInputFile,
           ErrorReadingInputFile, ErrorReadingInputFile, ErrorReadingInputFile,
           ErrorReadingInputFile, ErrorReadingInputFile, ErrorReadingInputFile,
           ErrorReadingInputFile, ErrorReadingInputFile, ErrorReadingInputFile,
           ErrorReadingInputFile, ErrorReadingInputFile, ErrorReadingInputFile]"
      by (simp add: numeral_eq_Suc)
    then have "concat (map (\<lambda>(input_path, output_path, coeff).
          handle_image example_world (max_threads example_world) input_path output_path coeff)
        debug_runs) = replicate 15 ErrorReadingInputFile"
      by (simp add: debug_runs_def handle_image_def example_world_def)
    then show ?thesis using c[of "[''autocontrast'']"] by simp
  qed
  ultimately show ?thesis by blast
qed

text \<open>
  The claim as stated fails: with well-formed arguments and an input file that cannot be
  opened, the diagnostic is printed and the exit status is 0.
\<close>

theorem unreadable_input_exit_status_counterexample:
  "main example_world [''autocontrast'', ''4'', ''none.pnm'', ''out.pnm'', ''0.5'']
     = ([ErrorReadingInputFile], 0)
   \<and> \<not> snd (main example_world [''autocontrast'', ''4'', ''none.pnm'', ''out.pnm'', ''0.5'']) \<noteq> 0"
  by (simp add: main_def handle_image_def example_world_def)

section \<open>Coefficient zero in \<^verbatim>\<open>image.cpp\<close>\<close>

lemma fold_bump_thrice:
  "length (fold (\<lambda>i f. fold (\<lambda>color f. bump f (raw_img ! i)) [0..<3] f) idx f) = length f
   \<and> (\<forall>k<length f. fold (\<lambda>i f. fold (\<lambda>color f. bump f (raw_img ! i)) [0..<3] f) idx f ! k
          = f ! k + 3 * length (filter (\<lambda>i. unat (raw_img ! i) = k) idx))"
proof (induction idx arbitrary: f)
  case Nil
  show ?case by simp
next
  case (Cons i idx)
  have 3: "[0..<3] = [0, 1, 2]" by (simp add: upt_rec)
  show ?case
    using Cons.IH[of "fold (\<lambda>color f. bump f (raw_img ! i)) [0..<3] f"]
    by (simp add: 3 length_bump nth_bump)
qed

text \<open>
  A bin of \<^verbatim>\<open>image.cpp\<close> holds the count of \<^verbatim>\<open>autocontrast.cpp\<close> and twice the count of
  the tail again, so it lies between that count and three times that count.
\<close>

lemma frequencies_image_props:
  assumes T: "0 < T" and order: "mset order = mset [0..<T]"
  shows "length (frequencies_image T order raw_img) = 256"
    and "k < 256 \<Longrightarrow> frequencies T order raw_img ! k \<le> frequencies_image T order raw_img ! k"
    and "k < 256 \<Longrightarrow> frequencies_image T order raw_img ! k \<le> 3 * frequencies T order raw_img ! k"
proof -
  let ?bs = "length raw_img div T"
  let ?f = "fold (\<lambda>t fr. merge_freq fr (thread_freq raw_img ?bs t)) order (replicate 256 0)"
  let ?tail = "\<lambda>k. length (filter (\<lambda>i. unat (raw_img ! i) = k) [?bs * T..<length raw_img])"
  have l: "length ?f = 256"
    using fold_merge[of "replicate 256 0" "thread_freq raw_img ?bs" order] by simp
  show "length (frequencies_image T order raw_img) = 256"
    using fold_bump_thrice[of raw_img "[?bs * T..<length raw_img]" ?f] l
    by (simp add: frequencies_image_def count_tail_image_def Let_def)
  assume k: "k < 256"
  have a: "frequencies T order raw_img ! k = ?f ! k + ?tail k"
    using k l by (simp add: frequencies_def Let_def nth_count_block)
  have b: "frequencies_image T order raw_img ! k = ?f ! k + 3 * ?tail k"
    using fold_bump_thrice[of raw_img "[?bs * T..<length raw_img]" ?f] l k
    by (simp add: frequencies_image_def count_tail_image_def Let_def)
  show "frequencies T order raw_img ! k \<le> frequencies_image T order raw_img ! k"
    unfolding a b by simp
  show "frequencies_image T order raw_img ! k \<le> 3 * frequencies T order raw_img ! k"
    unfolding a b by simp
qed

lemma sum_list_bins_le:
  fixes f g :: "nat list"
  assumes "0 \<le> a" "b \<le> 255" "\<And>k. k < 256 \<Longrightarrow> f ! k \<le> g ! k"
  shows "sum_list (map (\<lambda>i. f ! nat i) [a..b]) \<le> sum_list (map (\<lambda>i. g ! nat i) [a..b])"
proof (rule sum_list_mono)
  fix i assume "i \<in> set [a..b]"
  then have "nat i < 256" using assms(1,2) by auto
  then show "f ! nat i \<le> g ! nat i" by (rule assms(3))
qed

lemma sum_list_bins_le3:
  fixes f g :: "nat list"
  assumes "0 \<le> a" "b \<le> 255" "\<And>k. k < 256 \<Longrightarrow> f ! k \<le> 3 * g ! k"
  shows "sum_list (map (\<lambda>i. f ! nat i) [a..b]) \<le> 3 * sum_list (map (\<lambda>i. g ! nat i) [a..b])"
proof -
  have "sum_list (map (\<lambda>i. f ! nat i) [a..b]) \<le> sum_list (map (\<lambda>i. 3 * g ! nat i) [a..b])"
  proof (rule sum_list_mono)
    fix i assume "i \<in> set [a..b]"
    then have "nat i < 256" using assms(1,2) by auto
    then show "f ! nat i \<le> 3 * g ! nat i" by (rule assms(3))
  qed
  then show ?thesis by (simp add: sum_list_const_mult)
qed

text \<open>A running sum over the bins of \<^verbatim>\<open>image.cpp\<close> is zero exactly when the count is.\<close>

lemma image_sum_zero_iff:
  assumes "0 < T" "mset order = mset [0..<T]" "0 \<le> a" "b \<le> 255"
  shows "0 < sum_list (map (\<lambda>i. frequencies_image T order raw_img ! nat i) [a..b])
         \<longleftrightarrow> 0 < sum_list (map (\<lambda>i. frequencies T order raw_img ! nat i) [a..b])"
  using sum_list_bins_le[OF assms(3,4) frequencies_image_props(2)[OF assms(1,2)], of raw_img]
    sum_list_bins_le3[OF assms(3,4) frequencies_image_props(3)[OF assms(1,2)], of raw_img]
  by linarith




section \<open>\<^verbatim>\<open>image.cpp\<close> at the edges\<close>

text \<open>
  Equal borders in \<^verbatim>\<open>image.cpp\<close>: the scale factor is infinite, the products are NaN or
  infinite, and \<^verbatim>\<open>min\<close> turns every one of them into 255.
\<close>

lemma build_mapping_image_equal_borders:
  assumes "0 \<le> source_min" "source_min \<le> 255"
  shows "build_mapping_image source_min source_min = Inr (map (\<lambda>i. 255) [0..<256])"
proof -
  have fs: "f32_of_int source_min = Finite (of_int source_min)"
    using assms by (intro f32_of_int_small) simp
  have entry: "mapping_entry_image PosInf (f32_of_int source_min) (int i) = Inr 255"
    if "i < 256" for i
  proof -
    have fi: "f32_of_int (int i) = Finite (of_int (int i))"
      using that by (intro f32_of_int_small) simp
    have "to_f32 (of_int (int i - source_min)) = Finite (of_int (int i - source_min))"
      using that assms by (intro to_f32_small_int) simp
    then have sub: "f32_sub (f32_of_int (int i)) (f32_of_int source_min)
        = Finite (of_int (int i - source_min))"
      by (simp add: fs fi)
    show ?thesis
      unfolding mapping_entry_image_def sub
      by (simp add: f32_max_def f32_min_def trunc_rat_def)
  qed
  show ?thesis
    unfolding build_mapping_image_def Let_def tmp_zero_divisor
    by (rule fill_mapping_table) (rule entry)
qed

text \<open>
  An empty image in \<^verbatim>\<open>image.cpp\<close>: no bin is ever counted, and the loops run to their
  ends, 256 and \<open>-1\<close>.
\<close>

lemma empty_image_borders_image:
  "source_min_scan_image (needed (Finite 0) 0) (frequencies_image 1 [0] []) = Inr 256
   \<and> source_max_scan_image (needed (Finite 0) 0) (frequencies_image 1 [0] []) = Inr (- 1)"
proof
  let ?freq = "frequencies_image 1 [0] []"
  have len: "length ?freq = 256"
    by (rule frequencies_image_props(1)[OF _ schedule_single]) simp
  have zero: "\<not> f32_gt (f32_of_size (sum_list (map (\<lambda>i. ?freq ! nat i) [0..255])))
      (needed (Finite 0) 0)"
  proof -
    have "sum_list (map (\<lambda>i. frequencies 1 [0] [] ! nat i) [0..255]) = 0"
      using histogram_prefix[OF _ schedule_single, of 255 "[]"] by simp
    then have "\<not> 0 < sum_list (map (\<lambda>i. ?freq ! nat i) [0..255])"
      using image_sum_zero_iff[OF _ schedule_single, of 0 255 "[]"] by simp
    then show ?thesis unfolding needed_zero f32_of_size_gt_zero .
  qed
  show "source_min_scan_image (needed (Finite 0) 0) ?freq = Inr 256"
    unfolding source_min_scan_image_def
    by (rule scan_up_eqI) (use len zero in simp_all)
  show "source_max_scan_image (needed (Finite 0) 0) ?freq = Inr (- 1)"
    unfolding source_max_scan_image_def
    by (rule scan_down_eqI) (use len zero in simp_all)
qed

section \<open>A team smaller than \<open>THREADS_COUNT\<close>\<close>

lemma filter_index_range:
  assumes "b \<le> length xs"
  shows "length (filter (\<lambda>i. P (xs ! i)) [a..<b]) = length (filter P (take (b - a) (drop a xs)))"
proof -
  have "take (b - a) (drop a xs) = map (\<lambda>i. xs ! i) [a..<b]"
  proof (rule nth_equalityI)
    show l: "length (take (b - a) (drop a xs)) = length (map (\<lambda>i. xs ! i) [a..<b])"
      using assms by simp
    fix i assume "i < length (take (b - a) (drop a xs))"
    then have i: "i < b - a" using l by simp
    then have "take (b - a) (drop a xs) ! i = xs ! (a + i)" using assms by simp
    then show "take (b - a) (drop a xs) ! i = map (\<lambda>i. xs ! i) [a..<b] ! i"
      using i by (simp add: nth_map_upt)
  qed
  then have "filter P (take (b - a) (drop a xs))
      = map (\<lambda>i. xs ! i) (filter (\<lambda>i. P (xs ! i)) [a..<b])"
    by (simp add: filter_map comp_def)
  then show ?thesis by (metis length_map)
qed

text \<open>
  The program divides the buffer into \<open>THREADS_COUNT\<close> blocks and never asks how many
  threads the parallel region got. When the team has only \<open>n\<close> threads, the blocks
  \<open>n\<close> and above are not counted: the histogram is that of the first \<open>n\<close> blocks and the
  tail.
\<close>

lemma frequencies_team:
  assumes T: "0 < T" and n: "n \<le> T" and order: "mset order = mset [0..<n]"
  shows "frequencies T order img
           = map (\<lambda>k. length (filter (\<lambda>x. unat x = k)
                   (take (length img div T * n) img @ drop (length img div T * T) img)))
               [0..<256]"
proof (rule nth_equalityI)
  let ?bs = "length img div T"
  let ?P = "\<lambda>k i. unat (img ! i) = k"
  let ?f = "fold (\<lambda>t fr. merge_freq fr (thread_freq img ?bs t)) order (replicate 256 0)"
  have m: "length ?f = 256"
    "\<And>k. k < 256 \<Longrightarrow> ?f ! k = sum_list (map (\<lambda>t. thread_freq img ?bs t ! k) order)"
    using fold_merge[of "replicate 256 0" "thread_freq img ?bs" order] by simp_all
  have len: "length (frequencies T order img) = 256"
    using m(1) by (simp add: frequencies_def Let_def length_count_block)
  then show "length (frequencies T order img)
      = length (map (\<lambda>k. length (filter (\<lambda>x. unat x = k)
          (take (?bs * n) img @ drop (?bs * T) img))) [0..<256])"
    by simp
  fix k assume "k < length (frequencies T order img)"
  then have k: "k < 256" using len by simp
  have le: "?bs * T \<le> length img" using T by simp
  have le': "?bs * n \<le> length img" using le n by (meson mult_le_mono2 order_trans)
  have "?f ! k = sum_list (map (\<lambda>t. thread_freq img ?bs t ! k) [0..<n])"
    using m(2)[OF k] sum_list_schedule[OF order] by simp
  also have "\<dots> = sum_list (map (\<lambda>t. length (filter (?P k) [?bs * t..<?bs * (t + 1)])) [0..<n])"
    using k by (simp add: nth_thread_freq)
  also have "\<dots> = length (filter (?P k) [0..<?bs * n])" by (rule blocks_tile)
  also have "\<dots> = length (filter (\<lambda>x. unat x = k) (take (?bs * n) img))"
    using filter_index_range[OF le', of "\<lambda>x. unat x = k" 0] by simp
  finally have blocks: "?f ! k = length (filter (\<lambda>x. unat x = k) (take (?bs * n) img))" .
  have tail: "length (filter (?P k) [?bs * T..<length img])
      = length (filter (\<lambda>x. unat x = k) (drop (?bs * T) img))"
    using filter_index_range[of "length img" img "\<lambda>x. unat x = k" "?bs * T"] by simp
  have "frequencies T order img ! k = ?f ! k + length (filter (?P k) [?bs * T..<length img])"
    using k m(1) by (simp add: frequencies_def Let_def nth_count_block)
  then show "frequencies T order img ! k
      = map (\<lambda>k. length (filter (\<lambda>x. unat x = k)
          (take (?bs * n) img @ drop (?bs * T) img))) [0..<256] ! k"
    using blocks tail k by simp
qed

lemma process_team_zero_coefficient:
  assumes T: "0 < T" and n: "n \<le> T" and order: "mset order = mset [0..<n]"
    and counted: "counted = take (length img div T * n) img @ drop (length img div T * T) img"
    and ne: "counted \<noteq> []"
  shows "process T order (Finite 0) sz img
           = (case build_mapping (uint (Min (set counted))) (uint (Max (set counted))) of
                Inl e \<Rightarrow> Inl e
              | Inr mapping \<Rightarrow> Inr (map (\<lambda>x. mapping ! unat x) img))"
proof -
  have "frequencies T order img = frequencies 1 [0] counted"
    unfolding frequencies_team[OF T n order] counted
    by (rule frequencies_eq[OF _ schedule_single, symmetric]) simp
  then show ?thesis
    using zero_coefficient_borders[OF ne _ schedule_single, of sz]
    by (simp add: process_def Let_def apply_mapping_eq split: sum.splits)
qed

lemma build_mapping_table:
  assumes "0 \<le> source_min" "source_min < source_max" "source_max \<le> 255"
  shows "build_mapping source_min source_max
           = Inr (map (\<lambda>i. word_of_int (min 255 (round_away (round_binary32
                   (round_binary32 (255 / of_int (source_max - source_min))
                      * of_int (max 0 (int i - source_min)))))))
                 [0..<256])"
proof -
  have d: "1 \<le> source_max - source_min" "source_max - source_min \<le> 255" using assms by simp_all
  note t = tmp_props[OF d]
  show ?thesis
    unfolding build_mapping_def Let_def t(1)
    using assms by (intro fill_mapping_table mapping_entry_value t(2,3)) simp
qed

text \<open>Entries of the table computed from the error bound of the rounding.\<close>

lemma round_away_near:
  assumes "0 < x" "x < 256"
    and "of_int n - 1 / 2 + 1 / 131072 \<le> x" "x < of_int n + 1 / 2 - 1 / 131072"
  shows "round_away (round_binary32 x) = n"
proof -
  have e: "\<bar>round_binary32 x - x\<bar> \<le> 1 / 131072"
    using assms(1,2) by (rule round_error_below_256)
  have "0 \<le> round_binary32 x" using assms(1) by (intro round_binary32_nonneg) simp
  then have "round_away (round_binary32 x) = \<lfloor>round_binary32 x + 1 / 2\<rfloor>"
    by (rule round_away_nonneg)
  moreover have "of_int n \<le> round_binary32 x + 1 / 2" "round_binary32 x + 1 / 2 < of_int n + 1"
    using e assms(3,4) by linarith+
  ultimately show ?thesis by (simp add: floor_eq_iff)
qed

lemma round_numeral:
  "numeral w < (2 ^ 24 :: int) \<Longrightarrow> round_binary32 (numeral w) = numeral w"
  using round_binary32_of_int[of "numeral w"] by simp

lemma round_away_numeral: "round_away (numeral w) = numeral w"
proof -
  have "\<lfloor>(1::rat) / 2\<rfloor> = 0" by (simp add: floor_eq_iff)
  then have "round_away (of_int (numeral w)) = numeral w" by (simp add: round_away_def)
  then show ?thesis by simp
qed

lemma sevenths:
  "round_away (round_binary32 (round_binary32 (255 / 7))) = 36"
  "round_away (round_binary32 (round_binary32 (255 / 7) * 2)) = 73"
  "round_away (round_binary32 (round_binary32 (255 / 7) * 3)) = 109"
  "round_away (round_binary32 (round_binary32 (255 / 7) * 4)) = 146"
  "round_away (round_binary32 (round_binary32 (255 / 7) * 5)) = 182"
  "round_away (round_binary32 (round_binary32 (255 / 7) * 6)) = 219"
  "round_away (round_binary32 (round_binary32 (255 / 7) * 7)) = 255"
proof -
  let ?t = "round_binary32 (255 / 7)"
  have e: "\<bar>?t * 7 - 255\<bar> \<le> 255 / 131072" using tmp_props(4)[of 7] by simp
  have lo: "255 / 7 - 1 / 3000 \<le> ?t" and hi: "?t \<le> 255 / 7 + 1 / 3000"
    using e by linarith+
  have near: "round_away (round_binary32 x) = n"
    if "0 < x" "x < 256" "c - 1 / 2 + 1 / 131072 \<le> x" "x < c + 1 / 2 - 1 / 131072"
      "c = of_int n" for x c n
    using that round_away_near[of x n] by simp
  show "round_away (round_binary32 ?t) = 36"
    by (rule near[of _ 36]) (use lo hi in linarith, use lo hi in linarith,
      use lo hi in linarith, use lo hi in linarith, simp)
  show "round_away (round_binary32 (?t * 2)) = 73"
    by (rule near[of _ 73]) (use lo hi in linarith, use lo hi in linarith,
      use lo hi in linarith, use lo hi in linarith, simp)
  show "round_away (round_binary32 (?t * 3)) = 109"
    by (rule near[of _ 109]) (use lo hi in linarith, use lo hi in linarith,
      use lo hi in linarith, use lo hi in linarith, simp)
  show "round_away (round_binary32 (?t * 4)) = 146"
    by (rule near[of _ 146]) (use lo hi in linarith, use lo hi in linarith,
      use lo hi in linarith, use lo hi in linarith, simp)
  show "round_away (round_binary32 (?t * 5)) = 182"
    by (rule near[of _ 182]) (use lo hi in linarith, use lo hi in linarith,
      use lo hi in linarith, use lo hi in linarith, simp)
  show "round_away (round_binary32 (?t * 6)) = 219"
    by (rule near[of _ 219]) (use lo hi in linarith, use lo hi in linarith,
      use lo hi in linarith, use lo hi in linarith, simp)
  show "round_away (round_binary32 (?t * 7)) = 255"
    using scaled_full[of 7] by simp
qed

text \<open>
  C5. With a full team the histogram and the result of the pass do not depend on the
  thread count or on the order of the critical sections (\<open>full_team_invariance\<close>): for the
  eight samples 0 to 7 and the coefficient 0, one thread and four threads give the same
  bytes. The program takes \<open>THREADS_COUNT\<close> from \<^verbatim>\<open>omp_get_max_threads()\<close> and does not
  check the team: when only the threads 0 and 1 of four run, the blocks of the threads
  2 and 3 (the samples 4 to 7) are not counted, the borders are 0 and 3 instead of 0
  and 7, and the output bytes differ from those of one thread.
\<close>

theorem small_team_changes_output:
  "process 1 [0] (Finite 0) 8 [0, 1, 2, 3, 4, 5, 6, 7]
     = Inr [0, 36, 73, 109, 146, 182, 219, 255]
   \<and> process 4 [2, 0, 3, 1] (Finite 0) 8 [0, 1, 2, 3, 4, 5, 6, 7]
     = Inr [0, 36, 73, 109, 146, 182, 219, 255]
   \<and> process 4 [0, 1] (Finite 0) 8 [0, 1, 2, 3, 4, 5, 6, 7]
     = Inr [0, 85, 170, 255, 255, 255, 255, 255]
   \<and> frequencies 1 [0] [0, 1, 2, 3, 4, 5, 6, 7] ! 7 = 1
   \<and> frequencies 4 [0, 1] [0, 1, 2, 3, 4, 5, 6, 7] ! 7 = 0"
proof -
  let ?img = "[0, 1, 2, 3, 4, 5, 6, 7] :: sample list"
  have r0: "round_binary32 0 = 0" by (simp add: round_binary32_def)
  have a0: "round_away 0 = 0" by (simp add: round_away_def floor_eq_iff)
  have m: "Min (set ?img) = 0" "Max (set ?img) = 7" by simp_all
  have full: "process T order (Finite 0) 8 ?img = Inr [0, 36, 73, 109, 146, 182, 219, 255]"
    if "0 < T" "mset order = mset [0..<T]" for T order
    using process_zero_coefficient[OF _ that, of ?img 8] m build_mapping_table[of 0 7]
    by (simp add: sevenths r0 a0)
  have o4: "mset [2, 0, 3, 1] = mset [0..<(4::nat)]"
  proof -
    have "[0..<(4::nat)] = [0, 1, 2, 3]" by code_simp
    then show ?thesis by simp
  qed
  have o2: "mset [0, 1] = mset [0..<(2::nat)]" by (simp add: upt_rec)
  have m': "Min (set [0, 1, 2, 3 :: sample]) = 0" "Max (set [0, 1, 2, 3 :: sample]) = 3" by simp_all
  have third: "(255 :: rat) / 3 = 85" by simp
  have small: "process 4 [0, 1] (Finite 0) 8 ?img = Inr [0, 85, 170, 255, 255, 255, 255, 255]"
    using process_team_zero_coefficient[OF _ _ o2, of 4 "[0, 1, 2, 3]" ?img 8] m'
      build_mapping_table[of 0 3]
    by (simp add: third round_numeral round_away_numeral r0 a0)
  have "frequencies 1 [0] ?img ! 7 = 1"
    using frequencies_props(2)[OF _ schedule_single, of 7 ?img] by simp
  moreover have "frequencies 4 [0, 1] ?img ! 7 = 0"
  proof -
    have "frequencies 4 [0, 1] ?img
        = map (\<lambda>k. length (filter (\<lambda>x. unat x = k)
            (take (length ?img div 4 * 2) ?img @ drop (length ?img div 4 * 4) ?img))) [0..<256]"
      by (rule frequencies_team[OF _ _ o2]) simp_all
    then show ?thesis by simp
  qed
  ultimately show ?thesis using full[OF _ schedule_single] full[OF _ o4] small by simp
qed

end
